theory Spec2Isabelle
  imports Complex_Main
begin

section \<open>Memory, errors and element values\<close>

text \<open>
  The class \<open>matrix<T>\<close> of \<open>matrix.hpp\<close> keeps its elements in a buffer owned by a
  \<open>contiguous_matrix<T>\<close> and reaches them through \<open>m_rows_vec\<close>, a vector of raw
  pointers \<open>T *\<close> to the first element of each row. A pointer can outlive a copy of
  the object that holds it, so memory is explicit: a store of cells addressed by
  natural numbers, with \<open>brk\<close> the first address never handed out. Freed buffers
  are not reused.
\<close>

record 'a heap =
  cells :: "nat \<Rightarrow> 'a"
  brk :: nat

datatype error = ShapeMismatch

definition alloc :: "nat \<Rightarrow> 'a heap \<Rightarrow> nat \<times> 'a heap" where
  "alloc n h = (brk h, h\<lparr>brk := brk h + n\<rparr>)"

definition store_block :: "nat \<Rightarrow> 'a list \<Rightarrow> 'a heap \<Rightarrow> 'a heap" where
  "store_block p vs h =
     h\<lparr>cells := (\<lambda>a. if p \<le> a \<and> a < p + length vs then vs ! (a - p) else cells h a)\<rparr>"

definition write_cell :: "nat \<Rightarrow> 'a \<Rightarrow> 'a heap \<Rightarrow> 'a heap" where
  "write_cell a v h = h\<lparr>cells := (cells h)(a := v)\<rparr>"

text \<open>
  The element type \<open>T\<close> is a type variable whose operations come from the syntactic
  classes \<open>zero\<close>, \<open>one\<close>, \<open>plus\<close>, \<open>minus\<close>, \<open>times\<close>, \<open>inverse\<close> (for \<open>/\<close>),
  \<open>abs\<close> and \<open>ord\<close>: nothing is assumed of them, so a theorem stated for every such
  type holds of \<open>float\<close> and \<open>double\<close> with their rounding as well.

  For concrete runs \<open>fp\<close> stands for \<open>double\<close>: the special values of IEEE 754 with
  their arithmetic, and exact rationals for the finite values. It has no rounding,
  no overflow and one zero only, so it agrees with \<open>double\<close> exactly where every
  operation performed is exact in binary floating point (small integers and their
  exact quotients) and, on special values, up to the sign of an infinity.
\<close>

datatype fp = Fin rat | PInf | NInf | NaN

fun is_finite :: "fp \<Rightarrow> bool" where
  "is_finite (Fin x) = True"
| "is_finite PInf = False"
| "is_finite NInf = False"
| "is_finite NaN = False"

fun fp_neg :: "fp \<Rightarrow> fp" where
  "fp_neg (Fin x) = Fin (- x)"
| "fp_neg PInf = NInf"
| "fp_neg NInf = PInf"
| "fp_neg NaN = NaN"

fun fp_add :: "fp \<Rightarrow> fp \<Rightarrow> fp" where
  "fp_add NaN y = NaN"
| "fp_add x NaN = NaN"
| "fp_add (Fin x) (Fin y) = Fin (x + y)"
| "fp_add (Fin x) PInf = PInf"
| "fp_add (Fin x) NInf = NInf"
| "fp_add PInf (Fin y) = PInf"
| "fp_add NInf (Fin y) = NInf"
| "fp_add PInf PInf = PInf"
| "fp_add NInf NInf = NInf"
| "fp_add PInf NInf = NaN"
| "fp_add NInf PInf = NaN"

fun fp_signed_inf :: "rat \<Rightarrow> fp" where
  "fp_signed_inf s = (if s = 0 then NaN else if 0 < s then PInf else NInf)"

fun fp_mul :: "fp \<Rightarrow> fp \<Rightarrow> fp" where
  "fp_mul NaN y = NaN"
| "fp_mul x NaN = NaN"
| "fp_mul (Fin x) (Fin y) = Fin (x * y)"
| "fp_mul (Fin x) PInf = fp_signed_inf x"
| "fp_mul (Fin x) NInf = fp_signed_inf (- x)"
| "fp_mul PInf (Fin y) = fp_signed_inf y"
| "fp_mul NInf (Fin y) = fp_signed_inf (- y)"
| "fp_mul PInf PInf = PInf"
| "fp_mul NInf NInf = PInf"
| "fp_mul PInf NInf = NInf"
| "fp_mul NInf PInf = NInf"

fun fp_div :: "fp \<Rightarrow> fp \<Rightarrow> fp" where
  "fp_div NaN y = NaN"
| "fp_div x NaN = NaN"
| "fp_div (Fin x) (Fin y) = (if y = 0 then fp_signed_inf x else Fin (x / y))"
| "fp_div (Fin x) PInf = Fin 0"
| "fp_div (Fin x) NInf = Fin 0"
| "fp_div PInf (Fin y) = (if 0 \<le> y then PInf else NInf)"
| "fp_div NInf (Fin y) = (if 0 \<le> y then NInf else PInf)"
| "fp_div PInf PInf = NaN"
| "fp_div NInf NInf = NaN"
| "fp_div PInf NInf = NaN"
| "fp_div NInf PInf = NaN"

fun fp_abs :: "fp \<Rightarrow> fp" where
  "fp_abs (Fin x) = Fin \<bar>x\<bar>"
| "fp_abs PInf = PInf"
| "fp_abs NInf = PInf"
| "fp_abs NaN = NaN"

fun fp_less :: "fp \<Rightarrow> fp \<Rightarrow> bool" where
  "fp_less NaN y = False"
| "fp_less x NaN = False"
| "fp_less (Fin x) (Fin y) = (x < y)"
| "fp_less (Fin x) PInf = True"
| "fp_less (Fin x) NInf = False"
| "fp_less PInf y = False"
| "fp_less NInf (Fin y) = True"
| "fp_less NInf PInf = True"
| "fp_less NInf NInf = False"

text \<open>\<open>operator==\<close> of \<open>double\<close>: a NaN equals nothing, itself included.\<close>

fun fp_eq :: "fp \<Rightarrow> fp \<Rightarrow> bool" where
  "fp_eq NaN y = False"
| "fp_eq x NaN = False"
| "fp_eq x y = (x = y)"

instantiation fp :: "{zero,one,plus,minus,times,inverse,abs,ord}"
begin

definition zero_fp :: fp where
  "zero_fp = Fin 0"

definition one_fp :: fp where
  "one_fp = Fin 1"

definition plus_fp :: "fp \<Rightarrow> fp \<Rightarrow> fp" where
  "plus_fp x y = fp_add x y"

definition minus_fp :: "fp \<Rightarrow> fp \<Rightarrow> fp" where
  "minus_fp x y = fp_add x (fp_neg y)"

definition times_fp :: "fp \<Rightarrow> fp \<Rightarrow> fp" where
  "times_fp x y = fp_mul x y"

definition divide_fp :: "fp \<Rightarrow> fp \<Rightarrow> fp" where
  "divide_fp x y = fp_div x y"

definition inverse_fp :: "fp \<Rightarrow> fp" where
  "inverse_fp x = fp_div (Fin 1) x"

definition abs_fp :: "fp \<Rightarrow> fp" where
  "abs_fp x = fp_abs x"

definition less_fp :: "fp \<Rightarrow> fp \<Rightarrow> bool" where
  "less_fp x y = fp_less x y"

definition less_eq_fp :: "fp \<Rightarrow> fp \<Rightarrow> bool" where
  "less_eq_fp x y = (fp_less x y \<or> fp_eq x y)"

instance ..

end

section \<open>The matrix and its storage\<close>

text \<open>
  Modelled from the spec: \<open>contiguous_matrix<T>\<close> (\<open>contiguous_matrix.hpp\<close> is not
  among the sources). It owns a flat row-major array of \<open>rows * cols\<close> elements;
  \<open>data()\<close> is the address of the first. Its constructors fill a new array with a
  value or from a list (missing positions take the default value, excess input is
  ignored); its copy constructor fills a new array with the elements of the source.
\<close>

record contiguous_matrix =
  c_rows :: nat
  c_cols :: nat
  c_data :: nat

definition contiguous_new :: "nat \<Rightarrow> nat \<Rightarrow> 'a list \<Rightarrow> 'a heap \<Rightarrow> contiguous_matrix \<times> 'a heap" where
  "contiguous_new r c vs h =
     (case alloc (r * c) h of
        (p, h1) \<Rightarrow> (\<lparr>c_rows = r, c_cols = c, c_data = p\<rparr>, store_block p vs h1))"

definition contiguous_fill :: "nat \<Rightarrow> nat \<Rightarrow> 'a \<Rightarrow> 'a heap \<Rightarrow> contiguous_matrix \<times> 'a heap" where
  "contiguous_fill r c val h = contiguous_new r c (replicate (r * c) val) h"

definition contiguous_from_list ::
  "nat \<Rightarrow> nat \<Rightarrow> 'a::zero list \<Rightarrow> 'a heap \<Rightarrow> contiguous_matrix \<times> 'a heap" where
  "contiguous_from_list r c xs h =
     contiguous_new r c (take (r * c) xs @ replicate (r * c - length xs) 0) h"

definition contiguous_copy :: "contiguous_matrix \<Rightarrow> 'a heap \<Rightarrow> contiguous_matrix \<times> 'a heap" where
  "contiguous_copy src h =
     contiguous_new (c_rows src) (c_cols src)
       (map (\<lambda>k. cells h (c_data src + k)) [0..<c_rows src * c_cols src]) h"

record matrix =
  m_contiguous_matrix :: contiguous_matrix
  m_rows_vec :: "nat list"

definition rows :: "matrix \<Rightarrow> nat" where
  "rows m = c_rows (m_contiguous_matrix m)"

definition cols :: "matrix \<Rightarrow> nat" where
  "cols m = c_cols (m_contiguous_matrix m)"

definition square :: "matrix \<Rightarrow> bool" where
  "square m = (cols m = rows m)"

text \<open>
  \<open>update_rows_vec\<close> appends \<open>rows()\<close> pointers to \<open>m_rows_vec\<close>, starting at
  \<open>data()\<close> and advancing by \<open>cols()\<close>.
\<close>

definition update_rows_vec :: "matrix \<Rightarrow> matrix" where
  "update_rows_vec m =
     m\<lparr>m_rows_vec := m_rows_vec m @
          map (\<lambda>k. c_data (m_contiguous_matrix m) + k * cols m) [0..<rows m]\<rparr>"

text \<open>The constructors: build the buffer, then \<open>update_rows_vec\<close> on the empty vector.\<close>

definition matrix_fill :: "nat \<Rightarrow> nat \<Rightarrow> 'a \<Rightarrow> 'a heap \<Rightarrow> matrix \<times> 'a heap" where
  "matrix_fill r c val h =
     (case contiguous_fill r c val h of
        (cm, h1) \<Rightarrow> (update_rows_vec \<lparr>m_contiguous_matrix = cm, m_rows_vec = []\<rparr>, h1))"

definition matrix_from_list :: "nat \<Rightarrow> nat \<Rightarrow> 'a::zero list \<Rightarrow> 'a heap \<Rightarrow> matrix \<times> 'a heap" where
  "matrix_from_list r c xs h =
     (case contiguous_from_list r c xs h of
        (cm, h1) \<Rightarrow> (update_rows_vec \<lparr>m_contiguous_matrix = cm, m_rows_vec = []\<rparr>, h1))"

text \<open>
  The class declares no copy constructor, so \<open>matrix tmp = *this\<close> copies member by
  member: the buffer is copied into a new one, and the vector of row pointers is
  copied as it is, its pointers still addressing the buffer of the source.
\<close>

definition matrix_copy :: "matrix \<Rightarrow> 'a heap \<Rightarrow> matrix \<times> 'a heap" where
  "matrix_copy src h =
     (case contiguous_copy (m_contiguous_matrix src) h of
        (cm, h1) \<Rightarrow> (\<lparr>m_contiguous_matrix = cm, m_rows_vec = m_rows_vec src\<rparr>, h1))"

text \<open>
  \<open>(*this)[i][j]\<close> is the cell \<open>m_rows_vec[i] + j\<close>. Neither index is checked by the
  source; out of range the C++ behaviour is undefined, and \<open>!\<close> is unspecified.
\<close>

definition row_ptr :: "matrix \<Rightarrow> nat \<Rightarrow> nat" where
  "row_ptr m i = m_rows_vec m ! i"

definition elem :: "'a heap \<Rightarrow> matrix \<Rightarrow> nat \<Rightarrow> nat \<Rightarrow> 'a" where
  "elem h m i j = cells h (row_ptr m i + j)"

definition set_elem :: "matrix \<Rightarrow> nat \<Rightarrow> nat \<Rightarrow> 'a \<Rightarrow> 'a heap \<Rightarrow> 'a heap" where
  "set_elem m i j v h = write_cell (row_ptr m i + j) v h"

section \<open>Equality\<close>

datatype access = Row_of_this nat | Row_of_other nat | Read_cell nat

text \<open>
  \<open>std::equal(first1, last1, first2)\<close> over \<open>n = last1 - first1\<close> cells: it stops at
  the first pair that does not compare equal. The second component lists the cells
  read.
\<close>

fun std_equal :: "('a \<Rightarrow> 'a \<Rightarrow> bool) \<Rightarrow> 'a heap \<Rightarrow> nat \<Rightarrow> nat \<Rightarrow> nat \<Rightarrow> bool \<times> access list" where
  "std_equal eq h first1 0 first2 = (True, [])"
| "std_equal eq h first1 (Suc n) first2 =
     (if eq (cells h first1) (cells h first2)
      then (case std_equal eq h (Suc first1) n (Suc first2) of
              (r, t) \<Rightarrow> (r, Read_cell first1 # Read_cell first2 # t))
      else (False, [Read_cell first1, Read_cell first2]))"

text \<open>
  \<open>equal\<close>: \<open>res\<close> starts as the comparison of the shapes; for each \<open>i\<close> below
  \<open>m_rows_vec.size()\<close>, \<open>res = res && std::equal(...)\<close>, where \<open>&&\<close> evaluates its
  right operand (the three row views and the comparison) only when \<open>res\<close> holds.
  \<open>eq\<close> is \<open>operator==\<close> of the element type. The result comes with the accesses
  made, in the order of the source text.
\<close>

definition equal_step ::
  "('a \<Rightarrow> 'a \<Rightarrow> bool) \<Rightarrow> 'a heap \<Rightarrow> matrix \<Rightarrow> matrix \<Rightarrow> nat \<Rightarrow> bool \<times> access list \<Rightarrow> bool \<times> access list" where
  "equal_step eq h this other i acc =
     (case acc of (res, tr) \<Rightarrow>
        if res
        then (case std_equal eq h (row_ptr this i) (cols this) (row_ptr other i) of
                (r, t) \<Rightarrow> (r, tr @ [Row_of_this i, Row_of_this i, Row_of_other i] @ t))
        else (False, tr))"

definition matrix_equal ::
  "('a \<Rightarrow> 'a \<Rightarrow> bool) \<Rightarrow> 'a heap \<Rightarrow> matrix \<Rightarrow> matrix \<Rightarrow> bool \<times> access list" where
  "matrix_equal eq h this other =
     fold (equal_step eq h this other) [0..<length (m_rows_vec this)]
       (rows this = rows other \<and> cols this = cols other, [])"

section \<open>Row swap, pivot search, elimination, determinant\<close>

text \<open>\<open>swap_rows\<close> is \<open>std::swap\<close> on two entries of the pointer vector; no element moves.\<close>

definition swap_rows :: "matrix \<Rightarrow> nat \<Rightarrow> nat \<Rightarrow> matrix" where
  "swap_rows m idx1 idx2 =
     m\<lparr>m_rows_vec := (m_rows_vec m)[idx1 := m_rows_vec m ! idx2, idx2 := m_rows_vec m ! idx1]\<rparr>"

text \<open>
  \<open>max_in_col_greater_eq(col, minimum_row, cmp)\<close>: the scan keeps \<open>max_row_idx\<close> and
  replaces it by \<open>row\<close> when \<open>cmp\<close> holds of the absolute values of the entries at
  \<open>max_row_idx\<close> and at \<open>row\<close>.
\<close>

definition pivot_scan :: "('a \<Rightarrow> 'a \<Rightarrow> bool) \<Rightarrow> 'a::abs heap \<Rightarrow> matrix \<Rightarrow> nat \<Rightarrow> nat \<Rightarrow> nat \<Rightarrow> nat" where
  "pivot_scan cmp h m col row max_row_idx =
     (if cmp \<bar>elem h m max_row_idx col\<bar> \<bar>elem h m row col\<bar> then row else max_row_idx)"

definition max_in_col_greater_eq ::
  "('a \<Rightarrow> 'a \<Rightarrow> bool) \<Rightarrow> 'a::abs heap \<Rightarrow> matrix \<Rightarrow> nat \<Rightarrow> nat \<Rightarrow> nat \<times> 'a" where
  "max_in_col_greater_eq cmp h m col minimum_row =
     (let max_row_idx = fold (pivot_scan cmp h m col) [minimum_row..<rows m] minimum_row
      in (max_row_idx, elem h m max_row_idx col))"

text \<open>
  \<open>gauss_jordan_elimination\<close>: for each \<open>i\<close>, the pivot of column \<open>i\<close> among the rows
  from \<open>i\<close> on, the swap, and for every other row the coefficient
  \<open>mat[to_elim_row][i] / pivot_elem\<close>, taken before the row is rewritten cell by cell.
\<close>

definition elim_cell ::
  "matrix \<Rightarrow> nat \<Rightarrow> 'a::{minus,times} \<Rightarrow> nat \<Rightarrow> nat \<Rightarrow> 'a heap \<Rightarrow> 'a heap" where
  "elim_cell mat i coef to_elim_row col h =
     set_elem mat to_elim_row col (elem h mat to_elim_row col - coef * elem h mat i col) h"

definition elim_row ::
  "matrix \<Rightarrow> nat \<Rightarrow> 'a::{minus,times,inverse} \<Rightarrow> nat \<Rightarrow> 'a heap \<Rightarrow> 'a heap" where
  "elim_row mat i pivot_elem to_elim_row h =
     (if i \<noteq> to_elim_row
      then (let coef = elem h mat to_elim_row i / pivot_elem
            in fold (elim_cell mat i coef to_elim_row) [0..<cols mat] h)
      else h)"

definition gj_step ::
  "nat \<Rightarrow> matrix \<times> 'a::{minus,times,inverse,abs,ord} heap \<Rightarrow> matrix \<times> 'a heap" where
  "gj_step i st =
     (case st of (mat, h) \<Rightarrow>
        (case max_in_col_greater_eq (<) h mat i i of
           (pivot_row, pivot_elem) \<Rightarrow>
             (let mat' = swap_rows mat i pivot_row
              in (mat', fold (elim_row mat' i pivot_elem) [0..<rows mat'] h))))"

definition gauss_jordan_elimination ::
  "matrix \<Rightarrow> 'a::{minus,times,inverse,abs,ord} heap \<Rightarrow> matrix \<times> 'a heap" where
  "gauss_jordan_elimination mat h = fold gj_step [0..<rows mat] (mat, h)"

text \<open>
  \<open>determinant\<close> for floating-point \<open>T\<close>: the throw when the matrix is not square,
  the copy \<open>tmp\<close>, the elimination on \<open>tmp\<close>, and \<open>res\<close> multiplied from \<open>1\<close> by the
  diagonal of \<open>tmp\<close>. The heap is returned too: the method is \<open>const\<close>, and whether
  the elements of \<open>*this\<close> stay as they were is a property to be checked.
\<close>

definition diag_product :: "'a::{one,times} heap \<Rightarrow> matrix \<Rightarrow> 'a" where
  "diag_product h tmp = fold (\<lambda>i res. res * elem h tmp i i) [0..<rows tmp] 1"

definition determinant ::
  "matrix \<Rightarrow> 'a::{one,minus,times,inverse,abs,ord} heap \<Rightarrow> (error + 'a) \<times> 'a heap" where
  "determinant this h =
     (if \<not> square this then (Inl ShapeMismatch, h)
      else (case matrix_copy this h of
              (tmp, h1) \<Rightarrow>
                (case gauss_jordan_elimination tmp h1 of
                   (tmp', h2) \<Rightarrow> (Inr (diag_product h2 tmp'), h2))))"

section \<open>Transpose and arithmetic\<close>

text \<open>
  The member \<open>transpose\<close> fills a new \<open>cols \<times> rows\<close> matrix and move-assigns it to
  \<open>*this\<close>; the free function works on a copy of its argument.
\<close>

definition matrix_transpose :: "matrix \<Rightarrow> 'a::zero heap \<Rightarrow> matrix \<times> 'a heap" where
  "matrix_transpose this h =
     (case matrix_fill (cols this) (rows this) 0 h of
        (transposed, h1) \<Rightarrow>
          (transposed,
           fold (\<lambda>i. fold (\<lambda>j h'. set_elem transposed j i (elem h' this i j) h') [0..<cols this])
             [0..<rows this] h1))"

definition transpose_free :: "matrix \<Rightarrow> 'a::zero heap \<Rightarrow> matrix \<times> 'a heap" where
  "transpose_free mat h = (case matrix_copy mat h of (res, h1) \<Rightarrow> matrix_transpose res h1)"

text \<open>
  \<open>std::transform(first1, last1, first2, d_first, op)\<close> over \<open>n = last1 - first1\<close>
  cells.
\<close>

definition std_transform ::
  "('a \<Rightarrow> 'a \<Rightarrow> 'a) \<Rightarrow> nat \<Rightarrow> nat \<Rightarrow> nat \<Rightarrow> nat \<Rightarrow> 'a heap \<Rightarrow> 'a heap" where
  "std_transform op first1 n first2 d_first h =
     fold (\<lambda>k h'. write_cell (d_first + k) (op (cells h' (first1 + k)) (cells h' (first2 + k))) h')
       [0..<n] h"

text \<open>
  \<open>operator+=\<close> and \<open>operator-=\<close>: the throw comes before any write, so the failing
  branch returns the heap it was given.
\<close>

definition rowwise_assign ::
  "('a \<Rightarrow> 'a \<Rightarrow> 'a) \<Rightarrow> matrix \<Rightarrow> matrix \<Rightarrow> 'a heap \<Rightarrow> (error + unit) \<times> 'a heap" where
  "rowwise_assign op this other h =
     (if rows this \<noteq> rows other \<or> cols this \<noteq> cols other then (Inl ShapeMismatch, h)
      else (Inr (),
            fold (\<lambda>i h'. std_transform op (row_ptr this i) (cols this) (row_ptr other i)
                            (row_ptr this i) h')
              [0..<rows this] h))"

definition plus_assign :: "matrix \<Rightarrow> matrix \<Rightarrow> 'a::plus heap \<Rightarrow> (error + unit) \<times> 'a heap" where
  "plus_assign this other h = rowwise_assign (+) this other h"

definition minus_assign :: "matrix \<Rightarrow> matrix \<Rightarrow> 'a::minus heap \<Rightarrow> (error + unit) \<times> 'a heap" where
  "minus_assign this other h = rowwise_assign (-) this other h"

text \<open>
  Modelled from the spec: \<open>algorithm::multiply_accumulate\<close> (\<open>algorithm.hpp\<close> is not
  among the sources) returns \<open>init + \<Sum> a\<^sub>k * b\<^sub>k\<close> over two ranges of equal length,
  in index order. The accumulator is taken to have the element type.
\<close>

definition multiply_accumulate ::
  "'a::{plus,times} heap \<Rightarrow> nat \<Rightarrow> nat \<Rightarrow> nat \<Rightarrow> 'a \<Rightarrow> 'a" where
  "multiply_accumulate h a_begin n b_begin init =
     fold (\<lambda>k acc. acc + cells h (a_begin + k) * cells h (b_begin + k)) [0..<n] init"

text \<open>
  \<open>operator*=\<close> on matrices: the throw, the result \<open>res\<close>, the copy \<open>t_rhs\<close> of the
  right operand and its transpose, one \<open>multiply_accumulate\<close> per entry, and the
  final \<open>std::swap(*this, res)\<close>.
\<close>

definition times_assign ::
  "matrix \<Rightarrow> matrix \<Rightarrow> 'a::{zero,plus,times} heap \<Rightarrow> (error + unit) \<times> matrix \<times> 'a heap" where
  "times_assign this rhs h =
     (if cols this \<noteq> rows rhs then (Inl ShapeMismatch, this, h)
      else (case matrix_fill (rows this) (cols rhs) 0 h of
              (res, h1) \<Rightarrow>
                (case matrix_copy rhs h1 of
                   (t_rhs0, h2) \<Rightarrow>
                     (case matrix_transpose t_rhs0 h2 of
                        (t_rhs, h3) \<Rightarrow>
                          (Inr (), res,
                           fold (\<lambda>i. fold (\<lambda>j h'. set_elem res i j
                                          (multiply_accumulate h' (row_ptr this i) (cols this)
                                             (row_ptr t_rhs j) 0) h')
                                        [0..<rows t_rhs])
                             [0..<rows this] h3)))))"

section \<open>Predicates of the statements\<close>

text \<open>
  \<open>rows_ok\<close>: the row vector has \<open>rows()\<close> entries, every row pointer addresses
  \<open>cols()\<close> allocated cells, and the cells of two different rows do not overlap.
  Every constructor establishes it; \<open>swap_rows\<close>, a copy and writes to cells keep it.
  It does not ask that the pointers address the matrix's own buffer.
\<close>

definition rows_ok :: "'a heap \<Rightarrow> matrix \<Rightarrow> bool" where
  "rows_ok h m \<longleftrightarrow>
     length (m_rows_vec m) = rows m \<and>
     (\<forall>i<rows m. row_ptr m i + cols m \<le> brk h) \<and>
     (\<forall>i<rows m. \<forall>j<rows m. i \<noteq> j \<longrightarrow>
        row_ptr m i + cols m \<le> row_ptr m j \<or> row_ptr m j + cols m \<le> row_ptr m i)"

text \<open>
  \<open>rows_apart m n\<close>: a row of \<open>m\<close> and a row of \<open>n\<close> share no cell, unless they are
  rows of the same index starting at the same address. Two matrices that own their
  buffers are apart, and a matrix is apart from itself.
\<close>

definition rows_apart :: "matrix \<Rightarrow> matrix \<Rightarrow> bool" where
  "rows_apart m n \<longleftrightarrow>
     (\<forall>i<rows m. \<forall>j<rows n.
        (i = j \<and> row_ptr m i = row_ptr n j) \<or>
        row_ptr m i + cols m \<le> row_ptr n j \<or> row_ptr n j + cols n \<le> row_ptr m i)"

text \<open>
  Logical equality of a matrix in one state and a matrix in another: the same shape
  and the same element at every logical position.
\<close>

definition logically_equal :: "'a heap \<Rightarrow> matrix \<Rightarrow> 'a heap \<Rightarrow> matrix \<Rightarrow> bool" where
  "logically_equal h1 m1 h2 m2 \<longleftrightarrow>
     rows m1 = rows m2 \<and> cols m1 = cols m2 \<and>
     (\<forall>i<rows m1. \<forall>j<cols m1. elem h1 m1 i j = elem h2 m2 i j)"

text \<open>
  The comparison is a strict weak order on a set of values: irreflexive, transitive,
  and incomparability is transitive. \<open><\<close> is one on the integers and on the
  floating-point values other than NaN.
\<close>

definition weak_order_on :: "('b \<Rightarrow> 'b \<Rightarrow> bool) \<Rightarrow> 'b set \<Rightarrow> bool" where
  "weak_order_on cmp S \<longleftrightarrow>
     (\<forall>x\<in>S. \<not> cmp x x) \<and>
     (\<forall>x\<in>S. \<forall>y\<in>S. \<forall>z\<in>S. cmp x y \<and> cmp y z \<longrightarrow> cmp x z) \<and>
     (\<forall>x\<in>S. \<forall>y\<in>S. \<forall>z\<in>S. cmp x z \<longrightarrow> cmp x y \<or> cmp y z)"

text \<open>
  What the pivot search is to return, in the words of its description: \<open>r\<close> is the
  smallest row index from \<open>minimum_row\<close> on whose absolute value in column \<open>col\<close>
  is not less than that of any row searched.
\<close>

definition not_less_than_all ::
  "('a \<Rightarrow> 'a \<Rightarrow> bool) \<Rightarrow> 'a::abs heap \<Rightarrow> matrix \<Rightarrow> nat \<Rightarrow> nat \<Rightarrow> nat \<Rightarrow> bool" where
  "not_less_than_all cmp h m col minimum_row r \<longleftrightarrow>
     (\<forall>r'\<in>{minimum_row..<rows m}. \<not> cmp \<bar>elem h m r col\<bar> \<bar>elem h m r' col\<bar>)"

definition first_max_row ::
  "('a \<Rightarrow> 'a \<Rightarrow> bool) \<Rightarrow> 'a::abs heap \<Rightarrow> matrix \<Rightarrow> nat \<Rightarrow> nat \<Rightarrow> nat \<Rightarrow> bool" where
  "first_max_row cmp h m col minimum_row r \<longleftrightarrow>
     r \<in> {minimum_row..<rows m} \<and> not_less_than_all cmp h m col minimum_row r \<and>
     (\<forall>r'\<in>{minimum_row..<r}. \<not> not_less_than_all cmp h m col minimum_row r')"

section \<open>The elimination on values\<close>

text \<open>
  The logical content of a matrix: the list of its rows, each the list of its
  elements, in logical order.
\<close>

definition logical :: "'a heap \<Rightarrow> matrix \<Rightarrow> 'a list list" where
  "logical h m = map (\<lambda>i. map (\<lambda>j. elem h m i j) [0..<cols m]) [0..<rows m]"

text \<open>
  Gauss--Jordan elimination with partial pivoting as the description gives it, on a
  matrix that is a list of rows and owns no memory. For each \<open>i\<close>: the pivot search
  in column \<open>i\<close> from row \<open>i\<close> on gives \<open>(r, p)\<close>; rows \<open>i\<close> and \<open>r\<close> are exchanged;
  every row other than \<open>i\<close> has \<open>c\<close> times row \<open>i\<close> subtracted from it, where \<open>c\<close>
  is its entry in column \<open>i\<close> divided by \<open>p\<close>. The pivot row is not scaled. The
  determinant is the product of the diagonal of the result, multiplied up from \<open>1\<close>.
\<close>

definition spec_max_in_col_from :: "'a::{abs,ord} list list \<Rightarrow> nat \<Rightarrow> nat \<Rightarrow> nat \<times> 'a" where
  "spec_max_in_col_from A col start =
     (let r = fold (\<lambda>row best. if \<bar>A ! best ! col\<bar> < \<bar>A ! row ! col\<bar> then row else best)
                [start..<length A] start
      in (r, A ! r ! col))"

definition spec_swap_rows :: "'a list list \<Rightarrow> nat \<Rightarrow> nat \<Rightarrow> 'a list list" where
  "spec_swap_rows A a b = A[a := A ! b, b := A ! a]"

definition spec_eliminate :: "'a::{minus,times,inverse} list list \<Rightarrow> nat \<Rightarrow> 'a \<Rightarrow> 'a list list" where
  "spec_eliminate A i p =
     map (\<lambda>r. if r = i then A ! i
              else map (\<lambda>k. A ! r ! k - (A ! r ! i / p) * A ! i ! k) [0..<length (A ! r)])
       [0..<length A]"

definition spec_gj_step :: "nat \<Rightarrow> 'a::{minus,times,inverse,abs,ord} list list \<Rightarrow> 'a list list" where
  "spec_gj_step i A =
     (case spec_max_in_col_from A i i of (r, p) \<Rightarrow> spec_eliminate (spec_swap_rows A i r) i p)"

definition spec_gauss_jordan :: "'a::{minus,times,inverse,abs,ord} list list \<Rightarrow> 'a list list" where
  "spec_gauss_jordan A = fold spec_gj_step [0..<length A] A"

definition spec_diag_product :: "'a::{one,times} list list \<Rightarrow> 'a" where
  "spec_diag_product A = fold (\<lambda>i res. res * A ! i ! i) [0..<length A] 1"

definition spec_determinant :: "'a::{one,minus,times,inverse,abs,ord} list list \<Rightarrow> 'a" where
  "spec_determinant A = spec_diag_product (spec_gauss_jordan A)"

text \<open>A list of rows that is an \<open>n \<times> n\<close> matrix.\<close>

definition square_list :: "nat \<Rightarrow> 'a list list \<Rightarrow> bool" where
  "square_list n A \<longleftrightarrow> length A = n \<and> (\<forall>r<n. length (A ! r) = n)"

text \<open>
  The pivot that step \<open>i\<close> of the elimination chooses: the result of the pivot
  search on the matrix as the steps before \<open>i\<close> left it.
\<close>

definition spec_pivot_at :: "'a::{minus,times,inverse,abs,ord} list list \<Rightarrow> nat \<Rightarrow> 'a" where
  "spec_pivot_at A i = snd (spec_max_in_col_from (fold spec_gj_step [0..<i] A) i i)"

text \<open>
  What the arithmetic of the element type does with values that are not finite, for
  a predicate \<open>fin\<close> that tells the finite values: a quotient by zero is not finite,
  and a product or a difference with an operand that is not finite is not finite.
  IEEE 754 arithmetic has these properties, whatever the rounding.
\<close>

definition nonfinite_absorbing :: "('a::{zero,minus,times,inverse} \<Rightarrow> bool) \<Rightarrow> bool" where
  "nonfinite_absorbing fin \<longleftrightarrow>
     (\<forall>x. \<not> fin (x / 0)) \<and>
     (\<forall>x y. \<not> fin x \<or> \<not> fin y \<longrightarrow> \<not> fin (x * y)) \<and>
     (\<forall>x y. \<not> fin x \<or> \<not> fin y \<longrightarrow> \<not> fin (x - y))"

text \<open>Some row of the \<open>n \<times> n\<close> matrix holds no finite value.\<close>

definition nonfinite_row :: "('a \<Rightarrow> bool) \<Rightarrow> nat \<Rightarrow> 'a list list \<Rightarrow> bool" where
  "nonfinite_row fin n A \<longleftrightarrow> (\<exists>r<n. \<forall>k<n. \<not> fin (A ! r ! k))"

section \<open>Example states\<close>

text \<open>
  States built by the constructors from an empty heap, for running the definitions:
  \<open>ex_a\<close> is the matrix with rows \<open>(1, 1)\<close> and \<open>(0, 1)\<close>, \<open>ex_b\<close> a second matrix
  with rows \<open>(1, 1)\<close> and \<open>(0, 2)\<close> built after it, \<open>ex_c\<close> a third of shape
  \<open>1 \<times> 2\<close>.
\<close>

definition heap0 :: "fp heap" where
  "heap0 = \<lparr>cells = (\<lambda>_. Fin 0), brk = 0\<rparr>"

definition ex_a :: "matrix \<times> fp heap" where
  "ex_a = matrix_from_list 2 2 [Fin 1, Fin 1, Fin 0, Fin 1] heap0"

definition ex_b :: "matrix \<times> fp heap" where
  "ex_b = matrix_from_list 2 2 [Fin 1, Fin 1, Fin 0, Fin 2] (snd ex_a)"

definition ex_c :: "matrix \<times> fp heap" where
  "ex_c = matrix_from_list 1 2 [Fin 1, Fin 1] (snd ex_b)"

text \<open>\<open>ex_nan\<close>: one column holding \<open>1\<close>, a NaN and \<open>2\<close>.\<close>

definition ex_nan :: "matrix \<times> fp heap" where
  "ex_nan = matrix_from_list 3 1 [Fin 1, NaN, Fin 2] heap0"

text \<open>
  \<open>ex_id\<close> is the \<open>2 \<times> 2\<close> identity, \<open>ex_zero\<close> the \<open>1 \<times> 1\<close> matrix holding \<open>0\<close>,
  \<open>ex_ones\<close> the \<open>2 \<times> 2\<close> matrix of ones.
\<close>

definition ex_id :: "matrix \<times> fp heap" where
  "ex_id = matrix_from_list 2 2 [Fin 1, Fin 0, Fin 0, Fin 1] heap0"

definition ex_zero :: "matrix \<times> fp heap" where
  "ex_zero = matrix_from_list 1 1 [Fin 0] heap0"

definition ex_ones :: "matrix \<times> fp heap" where
  "ex_ones = matrix_from_list 2 2 [Fin 1, Fin 1, Fin 1, Fin 1] heap0"

text \<open>
  \<open>ex_alias\<close>: a copy of the matrix of \<open>ex_a\<close>, made as \<open>matrix N = M\<close> makes it,
  with its two rows exchanged by \<open>swap_rows(0, 1)\<close>.
\<close>

definition ex_alias :: "matrix \<times> fp heap" where
  "ex_alias = (case matrix_copy (fst ex_a) (snd ex_a) of (n, h1) \<Rightarrow> (swap_rows n 0 1, h1))"

section \<open>Running the definitions\<close>

lemmas heap_defs = alloc_def store_block_def write_cell_def heap0_def

lemmas ctor_defs = contiguous_new_def contiguous_fill_def contiguous_from_list_def
  contiguous_copy_def update_rows_vec_def matrix_fill_def matrix_from_list_def matrix_copy_def

lemmas access_defs = rows_def cols_def square_def row_ptr_def elem_def set_elem_def

lemmas fp_defs = zero_fp_def one_fp_def plus_fp_def minus_fp_def times_fp_def divide_fp_def
  abs_fp_def less_fp_def

lemmas run_defs = heap_defs ctor_defs access_defs fp_defs upt_conv_Cons eval_nat_numeral

lemmas pivot_defs = max_in_col_greater_eq_def pivot_scan_def

lemmas spec_defs = spec_pivot_at_def spec_determinant_def spec_gauss_jordan_def spec_gj_step_def
  spec_max_in_col_from_def spec_swap_rows_def spec_eliminate_def spec_diag_product_def
  logical_def

lemmas det_defs = determinant_def gauss_jordan_elimination_def gj_step_def elim_row_def
  elim_cell_def swap_rows_def diag_product_def pivot_defs

section \<open>Writes and frames\<close>

lemma cells_write_cell [simp]: "cells (write_cell a v h) b = (if b = a then v else cells h b)"
  by (simp add: write_cell_def)

lemma brk_write_cell [simp]: "brk (write_cell a v h) = brk h"
  by (simp add: write_cell_def)

lemma rows_ok_brk: "brk h = brk h' \<Longrightarrow> rows_ok h m = rows_ok h' m"
  by (simp add: rows_ok_def)

lemma rows_ok_mono: "rows_ok h m \<Longrightarrow> brk h \<le> brk h' \<Longrightarrow> rows_ok h' m"
  unfolding rows_ok_def by (meson le_trans)

lemma fold_writes:
  assumes f: "\<And>x h'. x \<in> set xs \<Longrightarrow> f x h' = write_cell (tgt x) (val x h') h'"
    and d: "distinct (map tgt xs)"
    and v: "\<And>x h1 h2. x \<in> set xs \<Longrightarrow>
              (\<And>a. a \<notin> tgt ` (set xs - {x}) \<Longrightarrow> cells h1 a = cells h2 a) \<Longrightarrow>
              val x h1 = val x h2"
  shows "brk (fold f xs h) = brk h
       \<and> (\<forall>x\<in>set xs. cells (fold f xs h) (tgt x) = val x h)
       \<and> (\<forall>a. a \<notin> tgt ` set xs \<longrightarrow> cells (fold f xs h) a = cells h a)"
  using f d v
proof (induction xs arbitrary: h)
  case Nil
  show ?case by simp
next
  case (Cons y ys)
  define h1 where "h1 = write_cell (tgt y) (val y h) h"
  have step: "fold f (y # ys) h = fold f ys h1"
    using Cons.prems(1)[of y h] by (simp add: h1_def)
  have ynot: "tgt y \<notin> tgt ` set ys"
    using Cons.prems(2) by auto
  have IH: "brk (fold f ys h1) = brk h1
       \<and> (\<forall>x\<in>set ys. cells (fold f ys h1) (tgt x) = val x h1)
       \<and> (\<forall>a. a \<notin> tgt ` set ys \<longrightarrow> cells (fold f ys h1) a = cells h1 a)"
  proof (rule Cons.IH)
    show "f x h' = write_cell (tgt x) (val x h') h'" if "x \<in> set ys" for x h'
      using Cons.prems(1)[of x h'] that by simp
    show "distinct (map tgt ys)"
      using Cons.prems(2) by simp
    show "val x h1' = val x h2'"
      if "x \<in> set ys" "\<And>a. a \<notin> tgt ` (set ys - {x}) \<Longrightarrow> cells h1' a = cells h2' a"
      for x h1' h2'
    proof (rule Cons.prems(3))
      show "x \<in> set (y # ys)" using that(1) by simp
      fix a assume "a \<notin> tgt ` (set (y # ys) - {x})"
      then have "a \<notin> tgt ` (set ys - {x})" by auto
      then show "cells h1' a = cells h2' a" by (rule that(2))
    qed
  qed
  have same: "val x h1 = val x h" if "x \<in> set ys" for x
  proof (rule Cons.prems(3))
    show "x \<in> set (y # ys)" using that by simp
    fix a assume a: "a \<notin> tgt ` (set (y # ys) - {x})"
    have "x \<noteq> y" using that ynot by auto
    then have "a \<noteq> tgt y" using a by auto
    then show "cells h1 a = cells h a" by (simp add: h1_def)
  qed
  have 1: "brk (fold f (y # ys) h) = brk h"
    unfolding step using IH by (simp add: h1_def)
  have 2: "cells (fold f (y # ys) h) (tgt x) = val x h" if "x \<in> set (y # ys)" for x
  proof (cases "x \<in> set ys")
    case True
    then show ?thesis unfolding step using IH same by simp
  next
    case False
    then have "x = y" using that by simp
    then show ?thesis unfolding step using IH ynot by (simp add: h1_def)
  qed
  have 3: "cells (fold f (y # ys) h) a = cells h a" if "a \<notin> tgt ` set (y # ys)" for a
    unfolding step using IH that by (simp add: h1_def)
  show ?case using 1 2 3 by blast
qed

lemma fold_product:
  "fold (\<lambda>i. fold (f i) ys) xs = fold (\<lambda>(i, j). f i j) (List.product xs ys)"
proof (induction xs)
  case Nil
  show ?case by simp
next
  case (Cons x xs)
  have "fold (\<lambda>(i, j). f i j) (map (Pair x) ys) = fold (f x) ys"
    by (simp add: fold_map comp_def)
  then show ?case using Cons by (simp add: fun_eq_iff)
qed

lemma cell_index_inj:
  fixes r :: nat
  assumes "i < r" "i' < r"
  shows "j * r + i = j' * r + i' \<longleftrightarrow> j = j' \<and> i = i'"
proof
  assume e: "j * r + i = j' * r + i'"
  have "(j * r + i) div r = j" "(j' * r + i') div r = j'" using assms by simp_all
  then have "j = j'" using e by simp
  then show "j = j' \<and> i = i'" using e by simp
qed simp

lemma contiguous_new_facts:
  "fst (contiguous_new r c vs h) = \<lparr>c_rows = r, c_cols = c, c_data = brk h\<rparr>"
  "brk (snd (contiguous_new r c vs h)) = brk h + r * c"
  "cells (snd (contiguous_new r c vs h)) a =
     (if brk h \<le> a \<and> a < brk h + length vs then vs ! (a - brk h) else cells h a)"
  by (simp_all add: contiguous_new_def alloc_def store_block_def)

lemma matrix_fill_facts:
  "rows (fst (matrix_fill r c v h)) = r"
  "cols (fst (matrix_fill r c v h)) = c"
  "m_rows_vec (fst (matrix_fill r c v h)) = map (\<lambda>k. brk h + k * c) [0..<r]"
  "brk (snd (matrix_fill r c v h)) = brk h + r * c"
  "cells (snd (matrix_fill r c v h)) a = (if brk h \<le> a \<and> a < brk h + r * c then v else cells h a)"
  by (auto simp: matrix_fill_def contiguous_fill_def contiguous_new_def alloc_def
      store_block_def update_rows_vec_def rows_def cols_def)

lemma rows_ok_canonical:
  assumes "rows m = r" "cols m = c" "m_rows_vec m = map (\<lambda>k. p + k * c) [0..<r]"
    "p + r * c \<le> brk h"
  shows "rows_ok h m"
proof -
  have rp: "row_ptr m i = p + i * c" if "i < r" for i
    using that assms(3) by (simp add: row_ptr_def)
  have le: "i * c + c \<le> j * c" if "i < j" for i j :: nat
  proof -
    have "Suc i * c \<le> j * c" using that by (intro mult_le_mono1) simp
    then show ?thesis by simp
  qed
  have b: "row_ptr m i + c \<le> brk h" if "i < r" for i
    using le[of i r] that assms(4) rp[of i] by simp
  have d: "row_ptr m i + c \<le> row_ptr m j \<or> row_ptr m j + c \<le> row_ptr m i"
    if "i < r" "j < r" "i \<noteq> j" for i j
  proof (cases "i < j")
    case True
    then show ?thesis using le[of i j] rp that by simp
  next
    case False
    then have "j < i" using that by simp
    then show ?thesis using le[of j i] rp that by simp
  qed
  show ?thesis
    unfolding rows_ok_def using assms(1,2,3) b d by simp
qed

lemma matrix_copy_facts:
  "rows (fst (matrix_copy src h)) = rows src"
  "cols (fst (matrix_copy src h)) = cols src"
  "m_rows_vec (fst (matrix_copy src h)) = m_rows_vec src"
  "brk (snd (matrix_copy src h)) = brk h + rows src * cols src"
  "a < brk h \<Longrightarrow> cells (snd (matrix_copy src h)) a = cells h a"
  by (simp_all add: matrix_copy_def contiguous_copy_def contiguous_new_def alloc_def
      store_block_def rows_def cols_def)

lemma row_ptr_copy [simp]: "row_ptr (fst (matrix_copy src h)) i = row_ptr src i"
  by (simp add: row_ptr_def matrix_copy_facts)

lemma rows_ok_copy:
  assumes "rows_ok h src"
  shows "rows_ok (snd (matrix_copy src h)) (fst (matrix_copy src h))"
  using assms unfolding rows_ok_def
  by (simp add: matrix_copy_facts) (meson trans_le_add1)

lemma elem_copy:
  assumes "rows_ok h src" "i < rows src" "j < cols src"
  shows "elem (snd (matrix_copy src h)) (fst (matrix_copy src h)) i j = elem h src i j"
    and "elem (snd (matrix_copy src h)) src i j = elem h src i j"
proof -
  have "row_ptr src i + j < brk h"
    using assms unfolding rows_ok_def by (meson add_less_cancel_left less_le_trans)
  then show "elem (snd (matrix_copy src h)) (fst (matrix_copy src h)) i j = elem h src i j"
    and "elem (snd (matrix_copy src h)) src i j = elem h src i j"
    by (simp_all add: elem_def matrix_copy_facts)
qed

lemma matrix_from_list_facts:
  "rows (fst (matrix_from_list r c xs h)) = r"
  "cols (fst (matrix_from_list r c xs h)) = c"
  "m_rows_vec (fst (matrix_from_list r c xs h)) = map (\<lambda>k. brk h + k * c) [0..<r]"
  "brk (snd (matrix_from_list r c xs h)) = brk h + r * c"
  by (simp_all add: matrix_from_list_def contiguous_from_list_def contiguous_new_def alloc_def
      store_block_def update_rows_vec_def rows_def cols_def)

lemma rows_ok_matrix_from_list:
  "rows_ok (snd (matrix_from_list r c xs h)) (fst (matrix_from_list r c xs h))"
  by (rule rows_ok_canonical[of _ r c "brk h"]) (simp_all add: matrix_from_list_facts)

lemma elem_frame:
  assumes "rows_ok h m" "i < rows m" "j < cols m" "\<And>a. a < brk h \<Longrightarrow> cells h' a = cells h a"
  shows "elem h' m i j = elem h m i j"
proof -
  have "row_ptr m i + cols m \<le> brk h"
    using assms(1,2) unfolding rows_ok_def by blast
  then have "row_ptr m i + j < brk h" using assms(3) by linarith
  then show ?thesis using assms(4) by (simp add: elem_def)
qed

section \<open>Equality is logical\<close>

lemma std_equal_fst:
  "fst (std_equal eq h p n q) \<longleftrightarrow> (\<forall>j<n. eq (cells h (p + j)) (cells h (q + j)))"
proof (induction n arbitrary: p q)
  case 0
  show ?case by simp
next
  case (Suc n)
  show ?case
  proof (cases "eq (cells h p) (cells h q)")
    case False
    then show ?thesis by (auto intro: exI[of _ 0])
  next
    case True
    have "fst (std_equal eq h p (Suc n) q) = fst (std_equal eq h (Suc p) n (Suc q))"
      using True by (simp split: prod.splits)
    also have "\<dots> \<longleftrightarrow> (\<forall>j<n. eq (cells h (Suc p + j)) (cells h (Suc q + j)))"
      by (rule Suc.IH)
    also have "\<dots> \<longleftrightarrow> (\<forall>j<Suc n. eq (cells h (p + j)) (cells h (q + j)))"
      using True by (auto simp: less_Suc_eq_0_disj)
    finally show ?thesis .
  qed
qed

lemma equal_fold_fst:
  "fst (fold (equal_step eq h this other) [0..<n] (b, tr)) \<longleftrightarrow>
     b \<and> (\<forall>i<n. \<forall>j<cols this. eq (elem h this i j) (elem h other i j))"
proof (induction n)
  case 0
  show ?case by simp
next
  case (Suc n)
  obtain r t where st: "fold (equal_step eq h this other) [0..<n] (b, tr) = (r, t)"
    by (cases "fold (equal_step eq h this other) [0..<n] (b, tr)")
  have "fst (fold (equal_step eq h this other) [0..<Suc n] (b, tr)) =
        fst (equal_step eq h this other n (r, t))"
    by (simp add: st)
  also have "\<dots> \<longleftrightarrow> r \<and> (\<forall>j<cols this. eq (elem h this n j) (elem h other n j))"
    using std_equal_fst[of eq h "row_ptr this n" "cols this" "row_ptr other n"]
    by (auto simp: equal_step_def elem_def split: prod.splits)
  finally show ?case using Suc.IH st by (auto simp: less_Suc_eq)
qed

lemma equal_fold_false:
  "fold (equal_step eq h this other) xs (False, tr) = (False, tr)"
  by (induction xs) (simp_all add: equal_step_def)

text \<open>
  C7. \<open>equal\<close> returns true exactly when the two matrices have the same number of
  rows and of columns and, at every logical position \<open>(i, j)\<close>, the element of the
  first compares equal (by \<open>operator==\<close> of the element type, here \<open>eq\<close>) to the
  element of the second. Elements are reached through the row pointers of each
  matrix, so the physical order of the rows plays no part. The row vector of
  \<open>*this\<close> has \<open>rows()\<close> entries, as every constructor leaves it.
\<close>

theorem matrix_equal_iff:
  assumes "length (m_rows_vec this) = rows this"
  shows "fst (matrix_equal eq h this other) \<longleftrightarrow>
     rows this = rows other \<and> cols this = cols other \<and>
     (\<forall>i<rows this. \<forall>j<cols this. eq (elem h this i j) (elem h other i j))"
  unfolding matrix_equal_def using assms by (simp add: equal_fold_fst)

theorem matrix_equal_iff_witness:
  "length (m_rows_vec (fst ex_a)) = rows (fst ex_a) \<and>
   (fst (matrix_equal fp_eq (snd ex_b) (fst ex_a) (fst ex_b)) \<longleftrightarrow>
      rows (fst ex_a) = rows (fst ex_b) \<and> cols (fst ex_a) = cols (fst ex_b) \<and>
      (\<forall>i<rows (fst ex_a). \<forall>j<cols (fst ex_a).
          fp_eq (elem (snd ex_b) (fst ex_a) i j) (elem (snd ex_b) (fst ex_b) i j)))"
proof -
  have len: "length (m_rows_vec (fst ex_a)) = rows (fst ex_a)"
    by (simp add: ex_a_def run_defs)
  show ?thesis
    using matrix_equal_iff[OF len, of fp_eq "snd ex_b" "fst ex_b"] len by blast
qed

text \<open>
  C10. When the shapes differ (in rows, in columns or in both), \<open>equal\<close> returns
  false and makes no access at all: no row pointer of either matrix is fetched and
  no cell is read.
\<close>

theorem matrix_equal_shape_differs:
  assumes "rows this \<noteq> rows other \<or> cols this \<noteq> cols other"
  shows "matrix_equal eq h this other = (False, [])"
  unfolding matrix_equal_def using assms by (auto simp: equal_fold_false)

theorem matrix_equal_shape_differs_witness:
  "rows (fst ex_a) = 2 \<and> rows (fst ex_c) = 1 \<and>
   matrix_equal fp_eq (snd ex_c) (fst ex_a) (fst ex_c) = (False, [])"
proof -
  have ra: "rows (fst ex_a) = 2" and rc: "rows (fst ex_c) = 1"
    by (simp_all add: ex_a_def ex_b_def ex_c_def run_defs)
  have sh: "rows (fst ex_a) \<noteq> rows (fst ex_c) \<or> cols (fst ex_a) \<noteq> cols (fst ex_c)"
    using ra rc by simp
  show ?thesis
    using matrix_equal_shape_differs[OF sh, of fp_eq "snd ex_c"] ra rc by blast
qed

section \<open>The pivot search\<close>

lemma pivot_scan_invariant:
  assumes wo: "weak_order_on cmp ((\<lambda>r. \<bar>elem h m r col\<bar>) ` {s..<n})"
    and sk: "s \<le> k" and kn: "k \<le> n" and sn: "s < n"
  shows "let mx = fold (pivot_scan cmp h m col) [s..<k] s in
           s \<le> mx \<and> mx < n \<and> (mx < k \<or> mx = s) \<and>
           (\<forall>r. s \<le> r \<and> r < k \<longrightarrow> \<not> cmp \<bar>elem h m mx col\<bar> \<bar>elem h m r col\<bar>) \<and>
           (\<forall>r. s \<le> r \<and> r < mx \<longrightarrow> cmp \<bar>elem h m r col\<bar> \<bar>elem h m mx col\<bar>)"
  using sk kn
proof (induction k rule: nat_induct_at_least)
  case base
  show ?case using sn by auto
next
  case (Suc k)
  define a where "a r = \<bar>elem h m r col\<bar>" for r
  define mx where "mx = fold (pivot_scan cmp h m col) [s..<k] s"
  have irr: "\<not> cmp (a x) (a x)" if "s \<le> x" "x < n" for x
    using wo that unfolding weak_order_on_def a_def by auto
  have tr: "cmp (a x) (a z)" if "cmp (a x) (a y)" "cmp (a y) (a z)"
      "s \<le> x" "x < n" "s \<le> y" "y < n" "s \<le> z" "z < n" for x y z
  proof -
    have "a x \<in> (\<lambda>r. \<bar>elem h m r col\<bar>) ` {s..<n}" "a y \<in> (\<lambda>r. \<bar>elem h m r col\<bar>) ` {s..<n}"
      "a z \<in> (\<lambda>r. \<bar>elem h m r col\<bar>) ` {s..<n}"
      using that unfolding a_def by auto
    then show ?thesis using wo that(1,2) unfolding weak_order_on_def by blast
  qed
  have ntr: "cmp (a x) (a y) \<or> cmp (a y) (a z)" if "cmp (a x) (a z)"
      "s \<le> x" "x < n" "s \<le> y" "y < n" "s \<le> z" "z < n" for x y z
  proof -
    have "a x \<in> (\<lambda>r. \<bar>elem h m r col\<bar>) ` {s..<n}" "a y \<in> (\<lambda>r. \<bar>elem h m r col\<bar>) ` {s..<n}"
      "a z \<in> (\<lambda>r. \<bar>elem h m r col\<bar>) ` {s..<n}"
      using that unfolding a_def by auto
    then show ?thesis using wo that(1) unfolding weak_order_on_def by blast
  qed
  from Suc have kn: "k < n" by simp
  have IH: "s \<le> mx" "mx < n" "mx < k \<or> mx = s"
    "\<And>r. s \<le> r \<Longrightarrow> r < k \<Longrightarrow> \<not> cmp (a mx) (a r)"
    "\<And>r. s \<le> r \<Longrightarrow> r < mx \<Longrightarrow> cmp (a r) (a mx)"
    using Suc.IH kn unfolding mx_def a_def by (simp_all add: Let_def)
  have step: "fold (pivot_scan cmp h m col) [s..<Suc k] s = (if cmp (a mx) (a k) then k else mx)"
    using Suc.hyps by (simp add: mx_def a_def pivot_scan_def)
  show ?case
  proof (cases "cmp (a mx) (a k)")
    case True
    have 1: "\<not> cmp (a k) (a r)" if "s \<le> r" "r < Suc k" for r
    proof (cases "r = k")
      case True
      then show ?thesis using irr[of k] Suc.hyps kn by simp
    next
      case False
      then have rk: "r < k" using that by simp
      show ?thesis
      proof
        assume "cmp (a k) (a r)"
        then have "cmp (a mx) (a r)"
          using tr[of mx k r] True IH(1,2) Suc.hyps kn that(1) rk by simp
        then show False using IH(4)[of r] that(1) rk by simp
      qed
    qed
    have 2: "cmp (a r) (a k)" if "s \<le> r" "r < k" for r
    proof -
      have "cmp (a mx) (a r) \<or> cmp (a r) (a k)"
        using ntr[of mx k r] True IH(1,2) Suc.hyps kn that by simp
      then show ?thesis using IH(4)[of r] that by simp
    qed
    show ?thesis
      unfolding step Let_def using True 1 2 Suc.hyps kn unfolding a_def by simp
  next
    case False
    have "\<not> cmp (a mx) (a r)" if "s \<le> r" "r < Suc k" for r
      using IH(4)[of r] False that by (cases "r = k") simp_all
    then show ?thesis
      unfolding step Let_def using False IH unfolding a_def by auto
  qed
qed

text \<open>
  C5. Let \<open>minimum_row\<close> be a row of the matrix, and let the comparison be a strict
  weak order on the absolute values of column \<open>col\<close> in the rows from
  \<open>minimum_row\<close> on. Then the pivot search returns the smallest row index of that
  range whose absolute value in the column is not less than that of any row of the
  range, together with the signed element at that row. The column index needs no
  bound beyond the one that makes the elements meaningful.
\<close>

theorem max_in_col_greater_eq_first_max:
  assumes "minimum_row < rows m"
    and "weak_order_on cmp ((\<lambda>r. \<bar>elem h m r col\<bar>) ` {minimum_row..<rows m})"
  shows "first_max_row cmp h m col minimum_row (fst (max_in_col_greater_eq cmp h m col minimum_row)) \<and>
         snd (max_in_col_greater_eq cmp h m col minimum_row) =
           elem h m (fst (max_in_col_greater_eq cmp h m col minimum_row)) col"
proof -
  define mx where "mx = fold (pivot_scan cmp h m col) [minimum_row..<rows m] minimum_row"
  have inv: "minimum_row \<le> mx" "mx < rows m"
    "\<And>r. minimum_row \<le> r \<Longrightarrow> r < rows m \<Longrightarrow> \<not> cmp \<bar>elem h m mx col\<bar> \<bar>elem h m r col\<bar>"
    "\<And>r. minimum_row \<le> r \<Longrightarrow> r < mx \<Longrightarrow> cmp \<bar>elem h m r col\<bar> \<bar>elem h m mx col\<bar>"
    using pivot_scan_invariant[OF assms(2), of "rows m"] assms(1)
    unfolding mx_def by (simp_all add: Let_def)
  have res: "max_in_col_greater_eq cmp h m col minimum_row = (mx, elem h m mx col)"
    by (simp add: max_in_col_greater_eq_def mx_def Let_def)
  have "first_max_row cmp h m col minimum_row mx"
    unfolding first_max_row_def not_less_than_all_def
    using inv by (auto intro!: bexI[of _ mx])
  then show ?thesis by (simp add: res)
qed

theorem max_in_col_greater_eq_first_max_witness:
  "0 < rows (fst ex_a) \<and>
   weak_order_on (<) ((\<lambda>r. \<bar>elem (snd ex_a) (fst ex_a) r 0\<bar>) ` {0..<rows (fst ex_a)}) \<and>
   first_max_row (<) (snd ex_a) (fst ex_a) 0 0
     (fst (max_in_col_greater_eq (<) (snd ex_a) (fst ex_a) 0 0)) \<and>
   snd (max_in_col_greater_eq (<) (snd ex_a) (fst ex_a) 0 0) =
     elem (snd ex_a) (fst ex_a) (fst (max_in_col_greater_eq (<) (snd ex_a) (fst ex_a) 0 0)) 0"
proof -
  have r: "0 < rows (fst ex_a)"
    by (simp add: ex_a_def run_defs)
  have img: "(\<lambda>r. \<bar>elem (snd ex_a) (fst ex_a) r 0\<bar>) ` {0..<rows (fst ex_a)} = {Fin 1, Fin 0}"
    by (auto simp: ex_a_def run_defs atLeastLessThanSuc)
  have wo: "weak_order_on (<) ((\<lambda>r. \<bar>elem (snd ex_a) (fst ex_a) r 0\<bar>) ` {0..<rows (fst ex_a)})"
    unfolding img by (simp add: weak_order_on_def less_fp_def)
  show ?thesis
    using max_in_col_greater_eq_first_max[OF r wo] r wo by blast
qed

text \<open>
  C5 as worded, for every matrix, fails where the column holds a NaN:
  in the column \<open>1, NaN, 2\<close> the search returns row \<open>2\<close>, while row \<open>1\<close> is smaller
  and its absolute value, a NaN, is not less than any other.
\<close>

theorem max_in_col_greater_eq_nan_counterexample:
  "0 < rows (fst ex_nan) \<and> 0 < cols (fst ex_nan) \<and>
   max_in_col_greater_eq (<) (snd ex_nan) (fst ex_nan) 0 0 = (2, Fin 2) \<and>
   \<not> first_max_row (<) (snd ex_nan) (fst ex_nan) 0 0
       (fst (max_in_col_greater_eq (<) (snd ex_nan) (fst ex_nan) 0 0))"
proof -
  have sh: "0 < rows (fst ex_nan)" "0 < cols (fst ex_nan)"
    by (simp_all add: ex_nan_def run_defs)
  have res: "max_in_col_greater_eq (<) (snd ex_nan) (fst ex_nan) 0 0 = (2, Fin 2)"
    by (simp add: ex_nan_def run_defs pivot_defs)
  have nan: "\<bar>elem (snd ex_nan) (fst ex_nan) 1 0\<bar> = NaN"
    by (simp add: ex_nan_def run_defs)
  have "not_less_than_all (<) (snd ex_nan) (fst ex_nan) 0 0 1"
    unfolding not_less_than_all_def nan by (simp add: less_fp_def)
  then have "\<not> first_max_row (<) (snd ex_nan) (fst ex_nan) 0 0 2"
    unfolding first_max_row_def by auto
  then show ?thesis using sh res by simp
qed

section \<open>Transpose\<close>

lemma matrix_transpose_facts:
  fixes h :: "'a::zero heap"
  assumes ok: "rows_ok h this"
  defines "T \<equiv> fst (matrix_transpose this h)" and "h' \<equiv> snd (matrix_transpose this h)"
  shows "rows T = cols this" "cols T = rows this"
    "brk h' = brk h + cols this * rows this"
    "\<And>a. a < brk h \<Longrightarrow> cells h' a = cells h a"
    "\<And>i j. i < rows this \<Longrightarrow> j < cols this \<Longrightarrow> elem h' T j i = elem h this i j"
    "rows_ok h' T"
    "\<And>j. j < cols this \<Longrightarrow> brk h \<le> row_ptr T j"
proof -
  define r where "r = rows this"
  define c where "c = cols this"
  define T0 where "T0 = fst (matrix_fill c r (0::'a) h)"
  define h1 where "h1 = snd (matrix_fill c r (0::'a) h)"
  define xs where "xs = List.product [0..<r] [0..<c]"
  define tgt where "tgt = (\<lambda>(i, j). brk h + j * r + i)"
  define val where "val = (\<lambda>(i, j) (g::'a heap). cells g (row_ptr this i + j))"
  define f where "f = (\<lambda>(i, j) (g::'a heap). set_elem T0 j i (elem g this i j) g)"
  have T0: "rows T0 = c" "cols T0 = r" "m_rows_vec T0 = map (\<lambda>k. brk h + k * r) [0..<c]"
    and h1: "brk h1 = brk h + c * r" "\<And>a. a < brk h \<Longrightarrow> cells h1 a = cells h a"
    unfolding T0_def h1_def by (simp_all add: matrix_fill_facts)
  have res: "matrix_transpose this h = (T0, fold f xs h1)"
    unfolding matrix_transpose_def T0_def h1_def xs_def f_def r_def c_def
    by (simp add: fold_product split: prod.splits)
  have T: "T = T0" and h': "h' = fold f xs h1"
    unfolding T_def h'_def res by simp_all
  have rpT: "row_ptr T0 j = brk h + j * r" if "j < c" for j
    using that T0(3) by (simp add: row_ptr_def)
  have below: "row_ptr this i + j < brk h" if "i < r" "j < c" for i j
  proof -
    have "row_ptr this i + c \<le> brk h"
      using ok that(1) unfolding rows_ok_def r_def c_def by blast
    then show ?thesis using that(2) by linarith
  qed
  have fw: "f x g = write_cell (tgt x) (val x g) g" if "x \<in> set xs" for x g
  proof -
    obtain i j where x: "x = (i, j)" by (cases x)
    have ij: "i < r" "j < c" using that unfolding x xs_def by simp_all
    show ?thesis
      unfolding x f_def tgt_def val_def using rpT[OF ij(2)]
      by (simp add: set_elem_def elem_def)
  qed
  have inj: "inj_on tgt (set xs)"
  proof (rule inj_onI)
    fix x y assume x: "x \<in> set xs" and y: "y \<in> set xs" and e: "tgt x = tgt y"
    obtain i j where xx: "x = (i, j)" by (cases x)
    obtain i' j' where yy: "y = (i', j')" by (cases y)
    have "i < r" "i' < r" using x y unfolding xx yy xs_def by simp_all
    then have "j = j' \<and> i = i'"
      using cell_index_inj[of i r i' j j'] e unfolding xx yy tgt_def by simp
    then show "x = y" by (simp add: xx yy)
  qed
  have "distinct xs"
    unfolding xs_def by (rule distinct_product) simp_all
  then have dist: "distinct (map tgt xs)"
    using inj by (simp add: distinct_map)
  have above: "brk h \<le> tgt x" for x
    unfolding tgt_def by (cases x) simp
  have dep: "val x g1 = val x g2"
    if "x \<in> set xs" "\<And>a. a \<notin> tgt ` (set xs - {x}) \<Longrightarrow> cells g1 a = cells g2 a" for x g1 g2
  proof -
    obtain i j where x: "x = (i, j)" by (cases x)
    have ij: "i < r" "j < c" using that(1) unfolding x xs_def by simp_all
    have "row_ptr this i + j \<noteq> tgt y" for y
      using below[OF ij] above[of y] by simp
    then have "row_ptr this i + j \<notin> tgt ` (set xs - {x})"
      by blast
    then have "cells g1 (row_ptr this i + j) = cells g2 (row_ptr this i + j)"
      by (rule that(2))
    then show ?thesis unfolding x val_def by simp
  qed
  have W: "brk (fold f xs h1) = brk h1
       \<and> (\<forall>x\<in>set xs. cells (fold f xs h1) (tgt x) = val x h1)
       \<and> (\<forall>a. a \<notin> tgt ` set xs \<longrightarrow> cells (fold f xs h1) a = cells h1 a)"
  proof (rule fold_writes)
    show "f x g = write_cell (tgt x) (val x g) g" if "x \<in> set xs" for x g
      using that by (rule fw)
    show "distinct (map tgt xs)" by (rule dist)
    show "val x g1 = val x g2"
      if "x \<in> set xs" "\<And>a. a \<notin> tgt ` (set xs - {x}) \<Longrightarrow> cells g1 a = cells g2 a" for x g1 g2
      using that by (rule dep)
  qed
  have W1: "brk (fold f xs h1) = brk h1"
    using W by (rule conjunct1)
  have W2: "cells (fold f xs h1) (tgt x) = val x h1" if "x \<in> set xs" for x
    using W that by blast
  have W3: "cells (fold f xs h1) a = cells h1 a" if "a \<notin> tgt ` set xs" for a
    using W that by blast
  show "rows T = cols this" "cols T = rows this"
    using T T0 by (simp_all add: r_def c_def)
  have "brk h' = brk h1"
    unfolding h' by (rule W1)
  also have "\<dots> = brk h + c * r"
    by (rule h1(1))
  finally show b: "brk h' = brk h + cols this * rows this"
    unfolding r_def c_def .
  show "cells h' a = cells h a" if "a < brk h" for a
  proof -
    have "a \<noteq> tgt y" for y
      using that above[of y] by simp
    then have "a \<notin> tgt ` set xs" by blast
    then have "cells (fold f xs h1) a = cells h1 a" by (rule W3)
    then show ?thesis using h1(2)[OF that] by (simp add: h')
  qed
  show "elem h' T j i = elem h this i j" if "i < rows this" "j < cols this" for i j
  proof -
    have ij: "i < r" "j < c" using that by (simp_all add: r_def c_def)
    then have mem: "(i, j) \<in> set xs" by (simp add: xs_def)
    have "cells h' (tgt (i, j)) = val (i, j) h1"
      unfolding h' using mem by (rule W2)
    moreover have "tgt (i, j) = row_ptr T j + i"
      using rpT[OF ij(2)] by (simp add: tgt_def T)
    moreover have "val (i, j) h1 = cells h (row_ptr this i + j)"
      using h1(2)[OF below[OF ij]] by (simp add: val_def)
    ultimately show ?thesis by (simp add: elem_def)
  qed
  show "rows_ok h' T"
  proof (rule rows_ok_canonical[of T c r "brk h" h'])
    show "rows T = c" "cols T = r" "m_rows_vec T = map (\<lambda>k. brk h + k * r) [0..<c]"
      using T T0 by simp_all
    show "brk h + c * r \<le> brk h'"
      using b by (simp add: r_def c_def)
  qed
  show "brk h \<le> row_ptr T j" if "j < cols this" for j
    using rpT[of j] that by (simp add: T c_def)
qed

lemma transpose_free_facts:
  fixes h :: "'a::zero heap"
  assumes ok: "rows_ok h M"
  defines "T \<equiv> fst (transpose_free M h)" and "h' \<equiv> snd (transpose_free M h)"
  shows "rows T = cols M" "cols T = rows M"
    "brk h \<le> brk h'"
    "\<And>a. a < brk h \<Longrightarrow> cells h' a = cells h a"
    "\<And>i j. i < rows M \<Longrightarrow> j < cols M \<Longrightarrow> elem h' T j i = elem h M i j"
    "rows_ok h' T"
proof -
  define res where "res = fst (matrix_copy M h)"
  define h1 where "h1 = snd (matrix_copy M h)"
  have tf: "transpose_free M h = matrix_transpose res h1"
    by (simp add: transpose_free_def res_def h1_def split: prod.splits)
  have T: "T = fst (matrix_transpose res h1)" and h': "h' = snd (matrix_transpose res h1)"
    by (simp_all add: T_def h'_def tf)
  have res: "rows res = rows M" "cols res = cols M"
    by (simp_all add: res_def matrix_copy_facts)
  have ok1: "rows_ok h1 res"
    unfolding res_def h1_def using ok by (rule rows_ok_copy)
  have b1: "brk h1 = brk h + rows M * cols M"
    by (simp add: h1_def matrix_copy_facts)
  note mt = matrix_transpose_facts[OF ok1]
  show "rows T = cols M" "cols T = rows M"
    unfolding T using mt(1,2) res by simp_all
  show "brk h \<le> brk h'"
    unfolding h' using mt(3) b1 by simp
  show c: "cells h' a = cells h a" if "a < brk h" for a
  proof -
    have "a < brk h1" using that b1 by simp
    then have "cells h' a = cells h1 a" unfolding h' by (rule mt(4))
    also have "\<dots> = cells h a" using that by (simp add: h1_def matrix_copy_facts)
    finally show ?thesis .
  qed
  show "elem h' T j i = elem h M i j" if "i < rows M" "j < cols M" for i j
  proof -
    have "elem h' T j i = elem h1 res i j"
      unfolding T h' using that res by (intro mt(5)) simp_all
    also have "\<dots> = elem h M i j"
      unfolding res_def h1_def using ok that by (rule elem_copy(1))
    finally show ?thesis .
  qed
  show "rows_ok h' T"
    unfolding T h' by (rule mt(6))
qed

text \<open>
  C9. For a matrix whose rows are in order (\<open>rows_ok\<close>), the member \<open>transpose\<close> and
  the free function \<open>transpose\<close> each produce a matrix with \<open>cols\<close> rows and \<open>rows\<close>
  columns whose entry \<open>(j, i)\<close> is the entry \<open>(i, j)\<close> of the original, and the
  transpose of the transpose is logically equal to the original, which itself is
  left as it was.
\<close>

theorem transpose_involution:
  fixes h :: "'a::zero heap"
  assumes ok: "rows_ok h M"
  shows "(case matrix_transpose M h of
            (T, h1) \<Rightarrow> rows T = cols M \<and> cols T = rows M \<and>
              (\<forall>i<rows M. \<forall>j<cols M. elem h1 T j i = elem h M i j)) \<and>
         (case transpose_free M h of
            (T, h1) \<Rightarrow> rows T = cols M \<and> cols T = rows M \<and>
              (\<forall>i<rows M. \<forall>j<cols M. elem h1 T j i = elem h M i j) \<and>
              (case transpose_free T h1 of
                 (TT, h2) \<Rightarrow> logically_equal h2 TT h2 M \<and> logically_equal h2 M h M))"
proof -
  obtain T0 g0 where m: "matrix_transpose M h = (T0, g0)" by (cases "matrix_transpose M h")
  obtain T h1 where t: "transpose_free M h = (T, h1)" by (cases "transpose_free M h")
  obtain TT h2 where tt: "transpose_free T h1 = (TT, h2)" by (cases "transpose_free T h1")
  have T0: "T0 = fst (matrix_transpose M h)" "g0 = snd (matrix_transpose M h)"
    by (simp_all add: m)
  have T: "T = fst (transpose_free M h)" "h1 = snd (transpose_free M h)"
    by (simp_all add: t)
  have TT: "TT = fst (transpose_free T h1)" "h2 = snd (transpose_free T h1)"
    by (simp_all add: tt)
  note a = matrix_transpose_facts[OF ok, folded T0]
  note b = transpose_free_facts[OF ok, folded T]
  note c = transpose_free_facts[OF b(6), folded TT]
  have M2: "elem h2 M i j = elem h M i j" if "i < rows M" "j < cols M" for i j
  proof (rule elem_frame[OF ok that])
    fix a assume a: "a < brk h"
    then have "a < brk h1" using b(3) by simp
    then have "cells h2 a = cells h1 a" by (rule c(4))
    then show "cells h2 a = cells h a" using b(4)[OF a] by simp
  qed
  have rt: "elem h2 TT i j = elem h M i j" if "i < rows M" "j < cols M" for i j
  proof -
    have "elem h2 TT i j = elem h1 T j i"
      using that b(1,2) by (intro c(5)) simp_all
    then show ?thesis using b(5)[OF that] by simp
  qed
  have 1: "rows T0 = cols M \<and> cols T0 = rows M \<and>
      (\<forall>i<rows M. \<forall>j<cols M. elem g0 T0 j i = elem h M i j)"
    using a(1,2,5) by blast
  have 2: "rows T = cols M \<and> cols T = rows M \<and>
      (\<forall>i<rows M. \<forall>j<cols M. elem h1 T j i = elem h M i j)"
    using b(1,2,5) by blast
  have 3: "logically_equal h2 TT h2 M"
    unfolding logically_equal_def using c(1,2) b(1,2) rt M2 by simp
  have 4: "logically_equal h2 M h M"
    unfolding logically_equal_def using M2 by simp
  show ?thesis using 1 2 3 4 by (simp add: m t tt)
qed

theorem transpose_involution_witness:
  "rows_ok (snd ex_a) (fst ex_a) \<and>
   (case matrix_transpose (fst ex_a) (snd ex_a) of
      (T, h1) \<Rightarrow> rows T = cols (fst ex_a) \<and> cols T = rows (fst ex_a) \<and>
        (\<forall>i<rows (fst ex_a). \<forall>j<cols (fst ex_a).
            elem h1 T j i = elem (snd ex_a) (fst ex_a) i j)) \<and>
   (case transpose_free (fst ex_a) (snd ex_a) of
      (T, h1) \<Rightarrow> rows T = cols (fst ex_a) \<and> cols T = rows (fst ex_a) \<and>
        (\<forall>i<rows (fst ex_a). \<forall>j<cols (fst ex_a).
            elem h1 T j i = elem (snd ex_a) (fst ex_a) i j) \<and>
        (case transpose_free T h1 of
           (TT, h2) \<Rightarrow> logically_equal h2 TT h2 (fst ex_a) \<and>
             logically_equal h2 (fst ex_a) (snd ex_a) (fst ex_a)))"
proof -
  have ok: "rows_ok (snd ex_a) (fst ex_a)"
    unfolding ex_a_def by (rule rows_ok_matrix_from_list)
  show ?thesis
    using transpose_involution[OF ok] ok by blast
qed

section \<open>Element-wise compound assignment\<close>

lemma rowwise_assign_elems:
  fixes h :: "'a heap" and op :: "'a \<Rightarrow> 'a \<Rightarrow> 'a"
  assumes ok: "rows_ok h M" and ap: "rows_apart M N"
    and sh: "rows M = rows N" "cols M = cols N"
  defines "h' \<equiv> snd (rowwise_assign op M N h)"
  shows "fst (rowwise_assign op M N h) = Inr ()"
    "brk h' = brk h"
    "\<And>i j. i < rows M \<Longrightarrow> j < cols M \<Longrightarrow> elem h' M i j = op (elem h M i j) (elem h N i j)"
proof -
  define r where "r = rows M"
  define c where "c = cols M"
  define xs where "xs = List.product [0..<r] [0..<c]"
  define tgt where "tgt = (\<lambda>(i, k). row_ptr M i + k)"
  define val where "val = (\<lambda>(i, k) (g::'a heap). op (cells g (row_ptr M i + k)) (cells g (row_ptr N i + k)))"
  define f where "f = (\<lambda>(i, k) (g::'a heap).
      write_cell (row_ptr M i + k) (op (cells g (row_ptr M i + k)) (cells g (row_ptr N i + k))) g)"
  have res: "rowwise_assign op M N h = (Inr (), fold f xs h)"
    unfolding rowwise_assign_def std_transform_def xs_def f_def r_def c_def
    using sh by (simp add: fold_product)
  show "fst (rowwise_assign op M N h) = Inr ()" by (simp add: res)
  have h': "h' = fold f xs h" by (simp add: h'_def res)
  have disj: "row_ptr M i + c \<le> row_ptr M i' \<or> row_ptr M i' + c \<le> row_ptr M i"
    if "i < r" "i' < r" "i \<noteq> i'" for i i'
    using ok that unfolding rows_ok_def r_def c_def by blast
  have tgt_inj: "i = i' \<and> k = k'"
    if "row_ptr M i + k = row_ptr M i' + k'" "i < r" "k < c" "i' < r" "k' < c" for i k i' k'
  proof (cases "i = i'")
    case True
    then show ?thesis using that(1) by simp
  next
    case False
    then show ?thesis using disj[OF that(2,4) False] that(1,3,5) by linarith
  qed
  have cross: "i = i' \<and> k = k'"
    if "row_ptr N i + k = row_ptr M i' + k'" "i < r" "k < c" "i' < r" "k' < c" for i k i' k'
  proof -
    have "(i' = i \<and> row_ptr M i' = row_ptr N i) \<or>
          row_ptr M i' + c \<le> row_ptr N i \<or> row_ptr N i + c \<le> row_ptr M i'"
      using ap that(2,4) sh unfolding rows_apart_def r_def c_def by metis
    then show ?thesis using that(1,3,5) by linarith
  qed
  have fw: "f x g = write_cell (tgt x) (val x g) g" for x g
    unfolding f_def tgt_def val_def by (cases x) simp
  have inj: "inj_on tgt (set xs)"
  proof (rule inj_onI)
    fix x y assume x: "x \<in> set xs" and y: "y \<in> set xs" and e: "tgt x = tgt y"
    obtain i k where xx: "x = (i, k)" by (cases x)
    obtain i' k' where yy: "y = (i', k')" by (cases y)
    have "i < r" "k < c" "i' < r" "k' < c" using x y unfolding xx yy xs_def by simp_all
    then have "i = i' \<and> k = k'"
      using tgt_inj[of i k i' k'] e unfolding xx yy tgt_def by simp
    then show "x = y" by (simp add: xx yy)
  qed
  have "distinct xs"
    unfolding xs_def by (rule distinct_product) simp_all
  then have dist: "distinct (map tgt xs)"
    using inj by (simp add: distinct_map)
  have dep: "val x g1 = val x g2"
    if "x \<in> set xs" "\<And>a. a \<notin> tgt ` (set xs - {x}) \<Longrightarrow> cells g1 a = cells g2 a" for x g1 g2
  proof -
    obtain i k where x: "x = (i, k)" by (cases x)
    have ik: "i < r" "k < c" using that(1) unfolding x xs_def by simp_all
    have n1: "row_ptr M i + k \<notin> tgt ` (set xs - {x})"
    proof
      assume "row_ptr M i + k \<in> tgt ` (set xs - {x})"
      then obtain y where y: "y \<in> set xs" "y \<noteq> x" "row_ptr M i + k = tgt y" by auto
      obtain i' k' where yy: "y = (i', k')" by (cases y)
      have "i' < r" "k' < c" using y(1) unfolding yy xs_def by simp_all
      then have "i = i' \<and> k = k'"
        using tgt_inj[of i k i' k'] y(3) ik unfolding yy tgt_def by simp
      then show False using y(2) by (simp add: x yy)
    qed
    have n2: "row_ptr N i + k \<notin> tgt ` (set xs - {x})"
    proof
      assume "row_ptr N i + k \<in> tgt ` (set xs - {x})"
      then obtain y where y: "y \<in> set xs" "y \<noteq> x" "row_ptr N i + k = tgt y" by auto
      obtain i' k' where yy: "y = (i', k')" by (cases y)
      have "i' < r" "k' < c" using y(1) unfolding yy xs_def by simp_all
      then have "i = i' \<and> k = k'"
        using cross[of i k i' k'] y(3) ik unfolding yy tgt_def by simp
      then show False using y(2) by (simp add: x yy)
    qed
    have "cells g1 (row_ptr M i + k) = cells g2 (row_ptr M i + k)"
      using n1 by (rule that(2))
    moreover have "cells g1 (row_ptr N i + k) = cells g2 (row_ptr N i + k)"
      using n2 by (rule that(2))
    ultimately show ?thesis unfolding x val_def by simp
  qed
  have W: "brk (fold f xs h) = brk h
       \<and> (\<forall>x\<in>set xs. cells (fold f xs h) (tgt x) = val x h)
       \<and> (\<forall>a. a \<notin> tgt ` set xs \<longrightarrow> cells (fold f xs h) a = cells h a)"
  proof (rule fold_writes)
    show "f x g = write_cell (tgt x) (val x g) g" if "x \<in> set xs" for x g
      by (rule fw)
    show "distinct (map tgt xs)" by (rule dist)
    show "val x g1 = val x g2"
      if "x \<in> set xs" "\<And>a. a \<notin> tgt ` (set xs - {x}) \<Longrightarrow> cells g1 a = cells g2 a" for x g1 g2
      using that by (rule dep)
  qed
  show "brk h' = brk h"
    unfolding h' using W by (rule conjunct1)
  show "elem h' M i j = op (elem h M i j) (elem h N i j)" if "i < rows M" "j < cols M" for i j
  proof -
    have mem: "(i, j) \<in> set xs" using that by (simp add: xs_def r_def c_def)
    have "cells (fold f xs h) (tgt (i, j)) = val (i, j) h"
      using W mem by blast
    then show ?thesis
      unfolding h' elem_def tgt_def val_def by simp
  qed
qed

text \<open>
  What holds of operands that are apart. Let the rows of \<open>M\<close> be in order and let
  \<open>M\<close> and \<open>N\<close> be apart (no row of one overlaps a row of the other, unless it is
  the same row at the same index). Then \<open>M += N\<close> and \<open>M -= N\<close> fail with
  \<open>ShapeMismatch\<close> exactly when the shapes differ, and a failing call returns the
  state it was given; when the shapes agree, every element of \<open>M\<close> becomes the sum
  (the difference) of the elements that \<open>M\<close> and \<open>N\<close> had at that logical position.
\<close>

lemma compound_assign_sum:
  fixes h :: "'a::{plus,minus} heap"
  assumes ok: "rows_ok h M" and ap: "rows_apart M N"
  shows "if rows M \<noteq> rows N \<or> cols M \<noteq> cols N
         then plus_assign M N h = (Inl ShapeMismatch, h) \<and>
              minus_assign M N h = (Inl ShapeMismatch, h)
         else fst (plus_assign M N h) = Inr () \<and> fst (minus_assign M N h) = Inr () \<and>
              (\<forall>i<rows M. \<forall>j<cols M.
                 elem (snd (plus_assign M N h)) M i j = elem h M i j + elem h N i j \<and>
                 elem (snd (minus_assign M N h)) M i j = elem h M i j - elem h N i j)"
proof (cases "rows M \<noteq> rows N \<or> cols M \<noteq> cols N")
  case True
  then show ?thesis
    by (auto simp: plus_assign_def minus_assign_def rowwise_assign_def)
next
  case False
  then have sh: "rows M = rows N" "cols M = cols N" by simp_all
  note p = rowwise_assign_elems[OF ok ap sh, where op = "(+)"]
  note m = rowwise_assign_elems[OF ok ap sh, where op = "(-)"]
  show ?thesis
    using False p(1,3) m(1,3) by (simp add: plus_assign_def minus_assign_def)
qed

lemma compound_assign_sum_example:
  "rows_ok (snd ex_b) (fst ex_a) \<and> rows_apart (fst ex_a) (fst ex_b) \<and>
   (if rows (fst ex_a) \<noteq> rows (fst ex_b) \<or> cols (fst ex_a) \<noteq> cols (fst ex_b)
    then plus_assign (fst ex_a) (fst ex_b) (snd ex_b) = (Inl ShapeMismatch, snd ex_b) \<and>
         minus_assign (fst ex_a) (fst ex_b) (snd ex_b) = (Inl ShapeMismatch, snd ex_b)
    else fst (plus_assign (fst ex_a) (fst ex_b) (snd ex_b)) = Inr () \<and>
         fst (minus_assign (fst ex_a) (fst ex_b) (snd ex_b)) = Inr () \<and>
         (\<forall>i<rows (fst ex_a). \<forall>j<cols (fst ex_a).
            elem (snd (plus_assign (fst ex_a) (fst ex_b) (snd ex_b))) (fst ex_a) i j =
              elem (snd ex_b) (fst ex_a) i j + elem (snd ex_b) (fst ex_b) i j \<and>
            elem (snd (minus_assign (fst ex_a) (fst ex_b) (snd ex_b))) (fst ex_a) i j =
              elem (snd ex_b) (fst ex_a) i j - elem (snd ex_b) (fst ex_b) i j))"
proof -
  have "rows_ok (snd ex_a) (fst ex_a)"
    unfolding ex_a_def by (rule rows_ok_matrix_from_list)
  moreover have "brk (snd ex_a) \<le> brk (snd ex_b)"
    by (simp add: ex_b_def matrix_from_list_facts)
  ultimately have ok: "rows_ok (snd ex_b) (fst ex_a)"
    by (rule rows_ok_mono)
  have ap: "rows_apart (fst ex_a) (fst ex_b)"
    by (simp add: rows_apart_def ex_a_def ex_b_def run_defs less_Suc_eq)
  show ?thesis
    using compound_assign_sum[OF ok ap] ok ap by blast
qed

text \<open>
  C8 fails on the code, by the defect of C2. A copy \<open>N\<close> of \<open>M\<close> keeps the row
  pointers of \<open>M\<close>, so after \<open>N.swap_rows(0, 1)\<close> the rows of \<open>N\<close> are rows of the
  buffer of \<open>M\<close> in the other order, and \<open>M += N\<close> reads row \<open>0\<close> of \<open>M\<close> after it
  has written it. With \<open>M\<close> holding the rows \<open>(1, 1)\<close> and \<open>(0, 1)\<close>, and \<open>N\<close>
  therefore \<open>(0, 1)\<close> and \<open>(1, 1)\<close>, the shapes agree and the call succeeds, and
  \<open>M\<close> ends with the rows \<open>(1, 2)\<close> and \<open>(1, 3)\<close> where the sum is \<open>(1, 2)\<close> and
  \<open>(1, 2)\<close>.
\<close>

theorem plus_assign_aliased_operand:
  "logical (snd ex_alias) (fst ex_a) = [[Fin 1, Fin 1], [Fin 0, Fin 1]] \<and>
   logical (snd ex_alias) (fst ex_alias) = [[Fin 0, Fin 1], [Fin 1, Fin 1]] \<and>
   fst (plus_assign (fst ex_a) (fst ex_alias) (snd ex_alias)) = Inr () \<and>
   logical (snd (plus_assign (fst ex_a) (fst ex_alias) (snd ex_alias))) (fst ex_a) =
     [[Fin 1, Fin 2], [Fin 1, Fin 3]]"
  by (simp add: ex_alias_def ex_a_def logical_def run_defs swap_rows_def plus_assign_def
      rowwise_assign_def std_transform_def)

section \<open>Matrix product\<close>

lemma multiply_accumulate_cong:
  assumes "\<And>k. k < n \<Longrightarrow> cells g1 (a + k) = cells g2 (a + k)"
    and "\<And>k. k < n \<Longrightarrow> cells g1 (b + k) = cells g2 (b + k)"
  shows "multiply_accumulate g1 a n b init = multiply_accumulate g2 a n b init"
  unfolding multiply_accumulate_def
  by (rule fold_cong) (simp_all add: assms)

lemma times_assign_facts:
  fixes h :: "'a::{zero,plus,times} heap"
  assumes okM: "rows_ok h M" and okN: "rows_ok h N" and sh: "cols M = rows N"
  defines "P \<equiv> fst (snd (times_assign M N h))" and "h' \<equiv> snd (snd (times_assign M N h))"
  shows "fst (times_assign M N h) = Inr ()"
    "rows P = rows M" "cols P = cols N"
    "\<And>i j. i < rows M \<Longrightarrow> j < cols N \<Longrightarrow>
        elem h' P i j = fold (\<lambda>k acc. acc + elem h M i k * elem h N k j) [0..<cols M] 0"
    "rows_ok h' P"
    "\<And>a. a < brk h \<Longrightarrow> cells h' a = cells h a"
proof -
  define r where "r = rows M"
  define c where "c = cols N"
  define n where "n = cols M"
  define res where "res = fst (matrix_fill r c (0::'a) h)"
  define h1 where "h1 = snd (matrix_fill r c (0::'a) h)"
  define t0 where "t0 = fst (matrix_copy N h1)"
  define h2 where "h2 = snd (matrix_copy N h1)"
  define t where "t = fst (matrix_transpose t0 h2)"
  define h3 where "h3 = snd (matrix_transpose t0 h2)"
  define xs where "xs = List.product [0..<r] [0..<c]"
  define tgt where "tgt = (\<lambda>(i, j). brk h + i * c + j)"
  define val where "val = (\<lambda>(i, j) (g::'a heap).
      multiply_accumulate g (row_ptr M i) n (row_ptr t j) 0)"
  define f where "f = (\<lambda>(i, j) (g::'a heap).
      set_elem res i j (multiply_accumulate g (row_ptr M i) n (row_ptr t j) 0) g)"
  have res: "rows res = r" "cols res = c" "m_rows_vec res = map (\<lambda>k. brk h + k * c) [0..<r]"
    and h1: "brk h1 = brk h + r * c" "\<And>a. a < brk h \<Longrightarrow> cells h1 a = cells h a"
    unfolding res_def h1_def by (simp_all add: matrix_fill_facts)
  have okN1: "rows_ok h1 N"
    using okN by (rule rows_ok_mono) (simp add: h1)
  have t0: "rows t0 = rows N" "cols t0 = cols N"
    and h2: "brk h1 \<le> brk h2" "\<And>a. a < brk h1 \<Longrightarrow> cells h2 a = cells h1 a"
    unfolding t0_def h2_def by (simp_all add: matrix_copy_facts)
  have okt0: "rows_ok h2 t0"
    unfolding t0_def h2_def using okN1 by (rule rows_ok_copy)
  note mt = matrix_transpose_facts[OF okt0, folded t_def h3_def]
  have tr: "rows t = c"
    using mt(1) t0 by (simp add: c_def)
  have e1: "matrix_fill (rows M) (cols N) (0::'a) h = (res, h1)"
    by (simp add: res_def h1_def r_def c_def)
  have e2: "matrix_copy N h1 = (t0, h2)"
    by (simp add: t0_def h2_def)
  have e3: "matrix_transpose t0 h2 = (t, h3)"
    by (simp add: t_def h3_def)
  have ta: "times_assign M N h = (Inr (), res, fold f xs h3)"
    unfolding times_assign_def e1 e2 e3 prod.case using sh tr
    by (simp add: fold_product f_def xs_def r_def n_def)
  show "fst (times_assign M N h) = Inr ()" by (simp add: ta)
  have P: "P = res" and h': "h' = fold f xs h3"
    by (simp_all add: P_def h'_def ta)
  show "rows P = rows M" "cols P = cols N"
    using res by (simp_all add: P r_def c_def)
  have rpres: "row_ptr res i = brk h + i * c" if "i < r" for i
    using that res(3) by (simp add: row_ptr_def)
  have fw: "f x g = write_cell (tgt x) (val x g) g" if "x \<in> set xs" for x g
  proof -
    obtain i j where x: "x = (i, j)" by (cases x)
    have ij: "i < r" "j < c" using that unfolding x xs_def by simp_all
    show ?thesis
      unfolding x f_def tgt_def val_def using rpres[OF ij(1)]
      by (simp add: set_elem_def)
  qed
  have inj: "inj_on tgt (set xs)"
  proof (rule inj_onI)
    fix x y assume x: "x \<in> set xs" and y: "y \<in> set xs" and e: "tgt x = tgt y"
    obtain i j where xx: "x = (i, j)" by (cases x)
    obtain i' j' where yy: "y = (i', j')" by (cases y)
    have "j < c" "j' < c" using x y unfolding xx yy xs_def by simp_all
    then have "i = i' \<and> j = j'"
      using cell_index_inj[of j c j' i i'] e unfolding xx yy tgt_def by simp
    then show "x = y" by (simp add: xx yy)
  qed
  have "distinct xs"
    unfolding xs_def by (rule distinct_product) simp_all
  then have dist: "distinct (map tgt xs)"
    using inj by (simp add: distinct_map)
  have range: "brk h \<le> tgt x \<and> tgt x < brk h1" if "x \<in> set xs" for x
  proof -
    obtain i j where x: "x = (i, j)" by (cases x)
    have ij: "i < r" "j < c" using that unfolding x xs_def by simp_all
    have "Suc i * c \<le> r * c" using ij(1) by (intro mult_le_mono1) simp
    then show ?thesis unfolding x tgt_def using ij(2) h1(1) by simp
  qed
  have belowM: "row_ptr M i + k < brk h" if "i < r" "k < n" for i k
  proof -
    have "row_ptr M i + n \<le> brk h"
      using okM that(1) unfolding rows_ok_def r_def n_def by blast
    then show ?thesis using that(2) by linarith
  qed
  have abovet: "brk h1 \<le> row_ptr t j + k" if "j < c" for j k
  proof -
    have "brk h2 \<le> row_ptr t j"
      using that t0(2) by (intro mt(7)) (simp add: c_def)
    then show ?thesis using h2(1) by linarith
  qed
  have dep: "val x g1 = val x g2"
    if "x \<in> set xs" "\<And>a. a \<notin> tgt ` (set xs - {x}) \<Longrightarrow> cells g1 a = cells g2 a" for x g1 g2
  proof -
    obtain i j where x: "x = (i, j)" by (cases x)
    have ij: "i < r" "j < c" using that(1) unfolding x xs_def by simp_all
    have notin: "a \<notin> tgt ` (set xs - {x})" if "a < brk h \<or> brk h1 \<le> a" for a
    proof
      assume "a \<in> tgt ` (set xs - {x})"
      then obtain y where "y \<in> set xs" "a = tgt y" by auto
      then show False using range[of y] that by simp
    qed
    have "multiply_accumulate g1 (row_ptr M i) n (row_ptr t j) 0 =
          multiply_accumulate g2 (row_ptr M i) n (row_ptr t j) 0"
    proof (rule multiply_accumulate_cong)
      fix k assume "k < n"
      then show "cells g1 (row_ptr M i + k) = cells g2 (row_ptr M i + k)"
        using belowM[OF ij(1)] by (intro that(2) notin) simp
      show "cells g1 (row_ptr t j + k) = cells g2 (row_ptr t j + k)"
        using abovet[OF ij(2)] by (intro that(2) notin) simp
    qed
    then show ?thesis unfolding x val_def by simp
  qed
  have W: "brk (fold f xs h3) = brk h3
       \<and> (\<forall>x\<in>set xs. cells (fold f xs h3) (tgt x) = val x h3)
       \<and> (\<forall>a. a \<notin> tgt ` set xs \<longrightarrow> cells (fold f xs h3) a = cells h3 a)"
  proof (rule fold_writes)
    show "f x g = write_cell (tgt x) (val x g) g" if "x \<in> set xs" for x g
      using that by (rule fw)
    show "distinct (map tgt xs)" by (rule dist)
    show "val x g1 = val x g2"
      if "x \<in> set xs" "\<And>a. a \<notin> tgt ` (set xs - {x}) \<Longrightarrow> cells g1 a = cells g2 a" for x g1 g2
      using that by (rule dep)
  qed
  have W1: "brk (fold f xs h3) = brk h3"
    using W by (rule conjunct1)
  have W2: "cells (fold f xs h3) (tgt x) = val x h3" if "x \<in> set xs" for x
    using W that by blast
  have W3: "cells (fold f xs h3) a = cells h3 a" if "a \<notin> tgt ` set xs" for a
    using W that by blast
  have b3: "brk h2 \<le> brk h3"
    using mt(3) by simp
  have old3: "cells h3 a = cells h a" if "a < brk h" for a
  proof -
    have a1: "a < brk h1" using that h1(1) by simp
    then have a2: "a < brk h2" using h2(1) by simp
    have "cells h3 a = cells h2 a" using a2 by (rule mt(4))
    also have "\<dots> = cells h1 a" using a1 by (rule h2(2))
    also have "\<dots> = cells h a" using that by (rule h1(2))
    finally show ?thesis .
  qed
  show "cells h' a = cells h a" if "a < brk h" for a
  proof -
    have "a \<notin> tgt ` set xs"
    proof
      assume "a \<in> tgt ` set xs"
      then obtain y where "y \<in> set xs" "a = tgt y" by auto
      then show False using range[of y] that by simp
    qed
    then have "cells h' a = cells h3 a" unfolding h' by (rule W3)
    then show ?thesis using old3[OF that] by simp
  qed
  show "elem h' P i j = fold (\<lambda>k acc. acc + elem h M i k * elem h N k j) [0..<cols M] 0"
    if "i < rows M" "j < cols N" for i j
  proof -
    have ij: "i < r" "j < c" using that by (simp_all add: r_def c_def)
    then have mem: "(i, j) \<in> set xs" by (simp add: xs_def)
    have "elem h' P i j = cells (fold f xs h3) (tgt (i, j))"
      using rpres[OF ij(1)] by (simp add: elem_def P h' tgt_def)
    also have "\<dots> = val (i, j) h3"
      using mem by (rule W2)
    also have "\<dots> = fold (\<lambda>k acc. acc + cells h3 (row_ptr M i + k) * cells h3 (row_ptr t j + k))
        [0..<n] 0"
      by (simp add: val_def multiply_accumulate_def)
    also have "\<dots> = fold (\<lambda>k acc. acc + elem h M i k * elem h N k j) [0..<n] 0"
    proof (rule fold_cong)
      fix k assume "k \<in> set [0..<n]"
      then have k: "k < n" by simp
      have kN: "k < rows N" using k sh by (simp add: n_def)
      have 1: "cells h3 (row_ptr M i + k) = elem h M i k"
        using old3[OF belowM[OF ij(1) k]] by (simp add: elem_def)
      have "elem h3 t j k = elem h2 t0 k j"
        using kN that(2) t0 by (intro mt(5)) simp_all
      also have "\<dots> = elem h1 N k j"
        unfolding t0_def h2_def using okN1 kN that(2) by (rule elem_copy(1))
      also have "\<dots> = elem h N k j"
        using okN kN that(2) h1(2) by (rule elem_frame)
      finally have 2: "cells h3 (row_ptr t j + k) = elem h N k j"
        by (simp add: elem_def)
      show "(\<lambda>acc. acc + cells h3 (row_ptr M i + k) * cells h3 (row_ptr t j + k)) =
            (\<lambda>acc. acc + elem h M i k * elem h N k j)"
        by (simp add: 1 2)
    qed simp_all
    finally show ?thesis by (simp add: n_def)
  qed
  show "rows_ok h' P"
  proof (rule rows_ok_canonical[of P r c "brk h" h'])
    show "rows P = r" "cols P = c" "m_rows_vec P = map (\<lambda>k. brk h + k * c) [0..<r]"
      using res by (simp_all add: P)
    have "brk h' = brk h3" unfolding h' by (rule W1)
    then show "brk h + r * c \<le> brk h'"
      using b3 h2(1) h1(1) by simp
  qed
qed

text \<open>
  C6. For matrices \<open>M\<close> and \<open>N\<close> whose rows are in order: when \<open>cols M\<close> differs
  from \<open>rows N\<close>, \<open>M *= N\<close> fails with \<open>ShapeMismatch\<close> and leaves \<open>M\<close> and the
  state as they were; otherwise it succeeds and \<open>M\<close> becomes a matrix with
  \<open>rows M\<close> rows and \<open>cols N\<close> columns whose entry \<open>(i, j)\<close> is the sum of the
  products \<open>M[i][k] * N[k][j]\<close>, added up from \<open>0\<close> in the order of \<open>k\<close>.
\<close>

theorem times_assign_product:
  fixes h :: "'a::{zero,plus,times} heap"
  assumes okM: "rows_ok h M" and okN: "rows_ok h N"
  shows "if cols M \<noteq> rows N then times_assign M N h = (Inl ShapeMismatch, M, h)
         else (case times_assign M N h of
                 (res, P, h') \<Rightarrow> res = Inr () \<and> rows P = rows M \<and> cols P = cols N \<and>
                   (\<forall>i<rows M. \<forall>j<cols N.
                      elem h' P i j =
                        fold (\<lambda>k acc. acc + elem h M i k * elem h N k j) [0..<cols M] 0))"
proof (cases "cols M = rows N")
  case False
  then show ?thesis by (simp add: times_assign_def)
next
  case True
  obtain res P h' where t: "times_assign M N h = (res, P, h')"
    by (cases "times_assign M N h")
  have P: "P = fst (snd (times_assign M N h))" and h': "h' = snd (snd (times_assign M N h))"
    and res: "res = fst (times_assign M N h)"
    by (simp_all add: t)
  note f = times_assign_facts[OF okM okN True, folded P h' res]
  show ?thesis
    using True f(1,2,3,4) by (simp add: t)
qed

theorem times_assign_product_witness:
  "rows_ok (snd ex_b) (fst ex_a) \<and> rows_ok (snd ex_b) (fst ex_b) \<and>
   (if cols (fst ex_a) \<noteq> rows (fst ex_b)
    then times_assign (fst ex_a) (fst ex_b) (snd ex_b) = (Inl ShapeMismatch, fst ex_a, snd ex_b)
    else (case times_assign (fst ex_a) (fst ex_b) (snd ex_b) of
            (res, P, h') \<Rightarrow> res = Inr () \<and> rows P = rows (fst ex_a) \<and> cols P = cols (fst ex_b) \<and>
              (\<forall>i<rows (fst ex_a). \<forall>j<cols (fst ex_b).
                 elem h' P i j =
                   fold (\<lambda>k acc. acc + elem (snd ex_b) (fst ex_a) i k * elem (snd ex_b) (fst ex_b) k j)
                     [0..<cols (fst ex_a)] 0)))"
proof -
  have "rows_ok (snd ex_a) (fst ex_a)"
    unfolding ex_a_def by (rule rows_ok_matrix_from_list)
  moreover have "brk (snd ex_a) \<le> brk (snd ex_b)"
    by (simp add: ex_b_def matrix_from_list_facts)
  ultimately have okM: "rows_ok (snd ex_b) (fst ex_a)"
    by (rule rows_ok_mono)
  have okN: "rows_ok (snd ex_b) (fst ex_b)"
    unfolding ex_b_def by (rule rows_ok_matrix_from_list)
  show ?thesis
    using times_assign_product[OF okM okN] okM okN by blast
qed

section \<open>Elimination and determinant\<close>

lemma logical_length [simp]: "length (logical h m) = rows m"
  by (simp add: logical_def)

lemma logical_row_length [simp]: "i < rows m \<Longrightarrow> length (logical h m ! i) = cols m"
  by (simp add: logical_def)

lemma logical_nth [simp]: "i < rows m \<Longrightarrow> j < cols m \<Longrightarrow> logical h m ! i ! j = elem h m i j"
  by (simp add: logical_def)

lemma logical_eqI:
  assumes "rows m = length A" "\<And>i. i < rows m \<Longrightarrow> length (A ! i) = cols m"
    "\<And>i j. i < rows m \<Longrightarrow> j < cols m \<Longrightarrow> elem h m i j = A ! i ! j"
  shows "logical h m = A"
proof (rule nth_equalityI)
  show "length (logical h m) = length A" using assms(1) by simp
  fix i assume "i < length (logical h m)"
  then have i: "i < rows m" by simp
  show "logical h m ! i = A ! i"
  proof (rule nth_equalityI)
    show "length (logical h m ! i) = length (A ! i)" using assms(2)[OF i] i by simp
    fix j assume "j < length (logical h m ! i)"
    then have "j < cols m" using i by simp
    then show "logical h m ! i ! j = A ! i ! j" using assms(3) i by simp
  qed
qed

lemma swap_rows_shape [simp]:
  "rows (swap_rows m a b) = rows m" "cols (swap_rows m a b) = cols m"
  "length (m_rows_vec (swap_rows m a b)) = length (m_rows_vec m)"
  by (simp_all add: swap_rows_def rows_def cols_def)

lemma row_ptr_swap_rows:
  assumes "length (m_rows_vec m) = rows m" "a < rows m" "b < rows m" "i < rows m"
  shows "row_ptr (swap_rows m a b) i =
           row_ptr m (if i = a then b else if i = b then a else i)"
  using assms by (auto simp: swap_rows_def row_ptr_def nth_list_update)

lemma rows_ok_swap_rows:
  assumes ok: "rows_ok h m" and a: "a < rows m" and b: "b < rows m"
  shows "rows_ok h (swap_rows m a b)"
proof -
  define s where "s = (\<lambda>i. if i = a then b else if i = b then a else i)"
  have len: "length (m_rows_vec m) = rows m" using ok by (simp add: rows_ok_def)
  have rp: "row_ptr (swap_rows m a b) i = row_ptr m (s i)" if "i < rows m" for i
    using row_ptr_swap_rows[OF len a b that] by (simp add: s_def)
  have sr: "s i < rows m" if "i < rows m" for i
    using that a b by (simp add: s_def)
  have sinj: "s i \<noteq> s j" if "i \<noteq> j" for i j
    using that by (auto simp: s_def split: if_splits)
  have 1: "row_ptr (swap_rows m a b) i + cols m \<le> brk h" if "i < rows m" for i
    using ok sr[OF that] rp[OF that] unfolding rows_ok_def by simp
  have 2: "row_ptr (swap_rows m a b) i + cols m \<le> row_ptr (swap_rows m a b) j \<or>
           row_ptr (swap_rows m a b) j + cols m \<le> row_ptr (swap_rows m a b) i"
    if "i < rows m" "j < rows m" "i \<noteq> j" for i j
  proof -
    have "row_ptr m (s i) + cols m \<le> row_ptr m (s j) \<or> row_ptr m (s j) + cols m \<le> row_ptr m (s i)"
      using ok sr[OF that(1)] sr[OF that(2)] sinj[OF that(3)] unfolding rows_ok_def by blast
    then show ?thesis using rp that by simp
  qed
  show ?thesis
    unfolding rows_ok_def using len 1 2 by simp
qed

lemma elem_swap_rows:
  assumes "length (m_rows_vec m) = rows m" "a < rows m" "b < rows m" "i < rows m"
  shows "elem h (swap_rows m a b) i j =
           elem h m (if i = a then b else if i = b then a else i) j"
  unfolding elem_def row_ptr_swap_rows[OF assms] by simp

lemma logical_swap_rows:
  assumes len: "length (m_rows_vec m) = rows m" and a: "a < rows m" and b: "b < rows m"
  shows "logical h (swap_rows m a b) = spec_swap_rows (logical h m) a b"
proof (rule logical_eqI)
  show "rows (swap_rows m a b) = length (spec_swap_rows (logical h m) a b)"
    by (simp add: spec_swap_rows_def)
  show "length (spec_swap_rows (logical h m) a b ! i) = cols (swap_rows m a b)"
    if "i < rows (swap_rows m a b)" for i
    using that a b by (auto simp: spec_swap_rows_def nth_list_update)
  show "elem h (swap_rows m a b) i j = spec_swap_rows (logical h m) a b ! i ! j"
    if "i < rows (swap_rows m a b)" "j < cols (swap_rows m a b)" for i j
  proof -
    have i: "i < rows m" and j: "j < cols m" using that by simp_all
    show ?thesis
      unfolding elem_swap_rows[OF len a b i]
      using a b i j by (auto simp: spec_swap_rows_def nth_list_update)
  qed
qed

lemma pivot_scan_spec:
  fixes h :: "'a::{abs,ord} heap"
  assumes "s \<le> k" "k \<le> rows m" "s < rows m" "col < cols m"
  defines "g \<equiv> (\<lambda>row best. if \<bar>logical h m ! best ! col\<bar> < \<bar>logical h m ! row ! col\<bar>
                            then row else best)"
  shows "fold (pivot_scan (<) h m col) [s..<k] s = fold g [s..<k] s
       \<and> fold (pivot_scan (<) h m col) [s..<k] s < rows m"
  using assms(1,2)
proof (induction k rule: nat_induct_at_least)
  case base
  show ?case using assms(3) by simp
next
  case (Suc k)
  define mx where "mx = fold (pivot_scan (<) h m col) [s..<k] s"
  have k: "k < rows m" using Suc.prems by simp
  have IH: "fold g [s..<k] s = mx" "mx < rows m"
    using Suc.IH k by (simp_all add: mx_def)
  have l: "fold (pivot_scan (<) h m col) [s..<Suc k] s = pivot_scan (<) h m col k mx"
    using Suc.hyps by (simp add: mx_def)
  have r: "fold g [s..<Suc k] s = g k mx"
    using Suc.hyps by (simp add: IH(1))
  have e: "g k mx = pivot_scan (<) h m col k mx"
    unfolding g_def pivot_scan_def using k IH(2) assms(4) by simp
  have "pivot_scan (<) h m col k mx < rows m"
    unfolding pivot_scan_def using k IH(2) by simp
  then show ?case unfolding l r e by simp
qed

lemma max_in_col_greater_eq_spec:
  assumes "s < rows m" "col < cols m"
  shows "max_in_col_greater_eq (<) h m col s = spec_max_in_col_from (logical h m) col s"
    and "fst (max_in_col_greater_eq (<) h m col s) < rows m"
proof -
  define mx where "mx = fold (pivot_scan (<) h m col) [s..<rows m] s"
  have 1: "fold (\<lambda>row best. if \<bar>logical h m ! best ! col\<bar> < \<bar>logical h m ! row ! col\<bar>
                            then row else best) [s..<rows m] s = mx"
    and 2: "mx < rows m"
    using pivot_scan_spec[of s "rows m" m col h] assms by (simp_all add: mx_def)
  show "max_in_col_greater_eq (<) h m col s = spec_max_in_col_from (logical h m) col s"
    unfolding max_in_col_greater_eq_def spec_max_in_col_from_def Let_def logical_length 1
      mx_def[symmetric]
    using 2 assms(2) by simp
  show "fst (max_in_col_greater_eq (<) h m col s) < rows m"
    unfolding max_in_col_greater_eq_def Let_def mx_def[symmetric] using 2 by simp
qed

lemma rows_disjoint:
  assumes "rows_ok g mat" "i < rows mat" "r < rows mat" "i \<noteq> r" "k < cols mat" "k' < cols mat"
  shows "row_ptr mat i + k \<noteq> row_ptr mat r + k'"
proof -
  have "row_ptr mat i + cols mat \<le> row_ptr mat r \<or> row_ptr mat r + cols mat \<le> row_ptr mat i"
    using assms(1-4) unfolding rows_ok_def by blast
  then show ?thesis using assms(5,6) by linarith
qed

lemma elim_row_elems:
  fixes g :: "'a::{minus,times,inverse} heap" and p :: 'a
  assumes ok: "rows_ok g mat" and i: "i < rows mat" and r: "r < rows mat" and ne: "i \<noteq> r"
  defines "g' \<equiv> elim_row mat i p r g"
  shows "brk g' = brk g"
    "\<And>k. k < cols mat \<Longrightarrow>
       elem g' mat r k = elem g mat r k - (elem g mat r i / p) * elem g mat i k"
    "\<And>a. (\<And>k. k < cols mat \<Longrightarrow> a \<noteq> row_ptr mat r + k) \<Longrightarrow> cells g' a = cells g a"
proof -
  define c where "c = cols mat"
  define coef where "coef = elem g mat r i / p"
  define xs where "xs = [0..<c]"
  define tgt where "tgt = (\<lambda>col. row_ptr mat r + col)"
  define val where "val = (\<lambda>col (h::'a heap).
      cells h (row_ptr mat r + col) - coef * cells h (row_ptr mat i + col))"
  define f where "f = elim_cell mat i coef r"
  have g': "g' = fold f xs g"
    unfolding g'_def elim_row_def f_def xs_def coef_def c_def using ne by (simp add: Let_def)
  have fw: "f x h = write_cell (tgt x) (val x h) h" for x h
    unfolding f_def tgt_def val_def by (simp add: elim_cell_def set_elem_def elem_def)
  have dist: "distinct (map tgt xs)"
    unfolding xs_def tgt_def by (simp add: distinct_map inj_on_def)
  have dep: "val x g1 = val x g2"
    if "x \<in> set xs" "\<And>a. a \<notin> tgt ` (set xs - {x}) \<Longrightarrow> cells g1 a = cells g2 a" for x g1 g2
  proof -
    have x: "x < c" using that(1) by (simp add: xs_def)
    have n1: "row_ptr mat r + x \<notin> tgt ` (set xs - {x})"
    proof
      assume "row_ptr mat r + x \<in> tgt ` (set xs - {x})"
      then obtain y where "y \<noteq> x" "row_ptr mat r + x = tgt y" by blast
      then show False by (simp add: tgt_def)
    qed
    have n2: "row_ptr mat i + x \<notin> tgt ` (set xs - {x})"
    proof
      assume "row_ptr mat i + x \<in> tgt ` (set xs - {x})"
      then obtain y where "y \<in> set xs" "row_ptr mat i + x = tgt y" by blast
      then have "y < c" "row_ptr mat i + x = row_ptr mat r + y"
        by (simp_all add: tgt_def xs_def)
      then show False
        using rows_disjoint[OF ok i r ne, of x y] x by (simp add: c_def)
    qed
    have "cells g1 (row_ptr mat r + x) = cells g2 (row_ptr mat r + x)"
      using n1 by (rule that(2))
    moreover have "cells g1 (row_ptr mat i + x) = cells g2 (row_ptr mat i + x)"
      using n2 by (rule that(2))
    ultimately show ?thesis unfolding val_def by simp
  qed
  have W: "brk (fold f xs g) = brk g
       \<and> (\<forall>x\<in>set xs. cells (fold f xs g) (tgt x) = val x g)
       \<and> (\<forall>a. a \<notin> tgt ` set xs \<longrightarrow> cells (fold f xs g) a = cells g a)"
  proof (rule fold_writes)
    show "f x h = write_cell (tgt x) (val x h) h" if "x \<in> set xs" for x h
      by (rule fw)
    show "distinct (map tgt xs)" by (rule dist)
    show "val x g1 = val x g2"
      if "x \<in> set xs" "\<And>a. a \<notin> tgt ` (set xs - {x}) \<Longrightarrow> cells g1 a = cells g2 a" for x g1 g2
      using that by (rule dep)
  qed
  show "brk g' = brk g"
    unfolding g' using W by (rule conjunct1)
  show "elem g' mat r k = elem g mat r k - (elem g mat r i / p) * elem g mat i k"
    if "k < cols mat" for k
  proof -
    have "k \<in> set xs" using that by (simp add: xs_def c_def)
    then have "cells (fold f xs g) (tgt k) = val k g" using W by blast
    then show ?thesis
      unfolding g' elem_def tgt_def val_def coef_def elem_def by simp
  qed
  show "cells g' a = cells g a" if "\<And>k. k < cols mat \<Longrightarrow> a \<noteq> row_ptr mat r + k" for a
  proof -
    have "a \<notin> tgt ` set xs"
    proof
      assume "a \<in> tgt ` set xs"
      then obtain k where "k \<in> set xs" "a = tgt k" by blast
      then have "k < cols mat" "a = row_ptr mat r + k"
        by (simp_all add: tgt_def xs_def c_def)
      then show False using that by blast
    qed
    then show ?thesis unfolding g' using W by blast
  qed
qed

lemma elim_row_same [simp]: "elim_row mat i p i g = g"
  by (simp add: elim_row_def)

lemma elim_row_other:
  fixes g :: "'a::{minus,times,inverse} heap"
  assumes ok: "rows_ok g mat" and i: "i < rows mat" and r: "r < rows mat"
    and r': "r' < rows mat" "r' \<noteq> r" and k: "k < cols mat"
  shows "elem (elim_row mat i p r g) mat r' k = elem g mat r' k"
proof (cases "i = r")
  case True
  then show ?thesis by simp
next
  case False
  have "cells (elim_row mat i p r g) (row_ptr mat r' + k) = cells g (row_ptr mat r' + k)"
  proof (rule elim_row_elems(3)[OF ok i r False])
    fix k' assume "k' < cols mat"
    then show "row_ptr mat r' + k \<noteq> row_ptr mat r + k'"
      using rows_disjoint[OF ok r'(1) r r'(2) k] by simp
  qed
  then show ?thesis by (simp add: elem_def)
qed

lemma elim_rows_elems:
  fixes g :: "'a::{minus,times,inverse} heap"
  assumes ok: "rows_ok g mat" and i: "i < rows mat" and ic: "i < cols mat" and m: "m \<le> rows mat"
  shows "brk (fold (elim_row mat i p) [0..<m] g) = brk g \<and>
         (\<forall>r<rows mat. \<forall>k<cols mat.
            elem (fold (elim_row mat i p) [0..<m] g) mat r k =
              (if r < m \<and> r \<noteq> i
               then elem g mat r k - (elem g mat r i / p) * elem g mat i k
               else elem g mat r k))"
  using m
proof (induction m)
  case 0
  show ?case by simp
next
  case (Suc m)
  define gm where "gm = fold (elim_row mat i p) [0..<m] g"
  have mr: "m < rows mat" using Suc.prems by simp
  have IHb: "brk gm = brk g"
    and IH: "\<And>r k. r < rows mat \<Longrightarrow> k < cols mat \<Longrightarrow>
        elem gm mat r k = (if r < m \<and> r \<noteq> i
               then elem g mat r k - (elem g mat r i / p) * elem g mat i k
               else elem g mat r k)"
    using Suc.IH mr unfolding gm_def by simp_all
  have okm: "rows_ok gm mat"
    using ok IHb by (simp add: rows_ok_def)
  have step: "fold (elim_row mat i p) [0..<Suc m] g = elim_row mat i p m gm"
    by (simp add: gm_def)
  show ?case
  proof (cases "i = m")
    case True
    show ?thesis unfolding step using True IHb IH by (auto simp: less_Suc_eq)
  next
    case False
    note e = elim_row_elems[OF okm i mr False, where p = p]
    have b: "brk (elim_row mat i p m gm) = brk g"
      using e(1) IHb by simp
    have el: "elem (elim_row mat i p m gm) mat r k =
              (if r < Suc m \<and> r \<noteq> i
               then elem g mat r k - (elem g mat r i / p) * elem g mat i k
               else elem g mat r k)" if r: "r < rows mat" and k: "k < cols mat" for r k
    proof (cases "r = m")
      case True
      have "elem (elim_row mat i p m gm) mat m k =
              elem gm mat m k - (elem gm mat m i / p) * elem gm mat i k"
        using k by (rule e(2))
      moreover have "elem gm mat m k = elem g mat m k" using IH[OF mr k] by simp
      moreover have "elem gm mat m i = elem g mat m i" using IH[OF mr ic] by simp
      moreover have "elem gm mat i k = elem g mat i k" using IH[OF i k] by simp
      ultimately show ?thesis using True False by simp
    next
      case rm: False
      have "elem (elim_row mat i p m gm) mat r k = elem gm mat r k"
        using okm i mr r rm k by (rule elim_row_other)
      then show ?thesis using IH[OF r k] rm by (simp add: less_Suc_eq)
    qed
    show ?thesis unfolding step using b el by simp
  qed
qed

lemma gj_step_refines:
  fixes g :: "'a::{minus,times,inverse,abs,ord} heap"
  assumes ok: "rows_ok g mat" and sq: "cols mat = rows mat" and i: "i < rows mat"
  defines "mat' \<equiv> fst (gj_step i (mat, g))" and "g' \<equiv> snd (gj_step i (mat, g))"
  shows "rows_ok g' mat'" "rows mat' = rows mat" "cols mat' = cols mat"
    "brk g' = brk g"
    "logical g' mat' = spec_gj_step i (logical g mat)"
proof -
  define A where "A = logical g mat"
  define pr where "pr = fst (max_in_col_greater_eq (<) g mat i i)"
  define p where "p = snd (max_in_col_greater_eq (<) g mat i i)"
  define sw where "sw = swap_rows mat i pr"
  define B where "B = spec_swap_rows A i pr"
  have ic: "i < cols mat" using i sq by simp
  have len: "length (m_rows_vec mat) = rows mat" using ok by (simp add: rows_ok_def)
  have piv: "max_in_col_greater_eq (<) g mat i i = (pr, p)"
    by (simp add: pr_def p_def)
  have spiv: "spec_max_in_col_from A i i = (pr, p)"
    using max_in_col_greater_eq_spec(1)[OF i ic, of g] piv by (simp add: A_def)
  have pr: "pr < rows mat"
    unfolding pr_def using i ic by (rule max_in_col_greater_eq_spec(2))
  have oksw: "rows_ok g sw"
    unfolding sw_def using ok i pr by (rule rows_ok_swap_rows)
  have shsw: "rows sw = rows mat" "cols sw = cols mat"
    by (simp_all add: sw_def)
  have B: "logical g sw = B"
    unfolding sw_def B_def A_def using len i pr by (rule logical_swap_rows)
  have res: "gj_step i (mat, g) = (sw, fold (elim_row sw i p) [0..<rows sw] g)"
    by (simp add: gj_step_def piv sw_def Let_def)
  have mat': "mat' = sw" and g': "g' = fold (elim_row sw i p) [0..<rows sw] g"
    by (simp_all add: mat'_def g'_def res)
  have E: "brk g' = brk g \<and>
         (\<forall>r<rows sw. \<forall>k<cols sw.
            elem g' sw r k =
              (if r < rows sw \<and> r \<noteq> i
               then elem g sw r k - (elem g sw r i / p) * elem g sw i k
               else elem g sw r k))"
    unfolding g' using oksw i ic by (intro elim_rows_elems) (simp_all add: shsw)
  show b: "brk g' = brk g" using E by (rule conjunct1)
  have el: "elem g' sw r k =
      (if r \<noteq> i then elem g sw r k - (elem g sw r i / p) * elem g sw i k else elem g sw r k)"
    if "r < rows mat" "k < cols mat" for r k
    using E that by (simp add: shsw)
  show "rows_ok g' mat'"
    using oksw b by (simp add: rows_ok_def mat')
  show "rows mat' = rows mat" "cols mat' = cols mat"
    by (simp_all add: mat' shsw)
  have lenB: "length B = rows mat"
    using B[symmetric] by (simp add: shsw)
  have rowB: "length (B ! r) = cols mat" if "r < rows mat" for r
    using that B[symmetric] by (simp add: shsw)
  have nthB: "B ! r ! k = elem g sw r k" if "r < rows mat" "k < cols mat" for r k
    using that B[symmetric] by (simp add: shsw)
  have "logical g' sw = spec_eliminate B i p"
  proof (rule logical_eqI)
    show "rows sw = length (spec_eliminate B i p)"
      by (simp add: spec_eliminate_def lenB shsw)
    show "length (spec_eliminate B i p ! r) = cols sw" if "r < rows sw" for r
      using that rowB[of r] rowB[of i] i by (simp add: spec_eliminate_def lenB shsw)
    show "elem g' sw r k = spec_eliminate B i p ! r ! k" if "r < rows sw" "k < cols sw" for r k
    proof -
      have r: "r < rows mat" and k: "k < cols mat" using that by (simp_all add: shsw)
      show ?thesis
        using el[OF r k] r k i ic nthB rowB[OF r]
        by (simp add: spec_eliminate_def lenB)
    qed
  qed
  then show "logical g' mat' = spec_gj_step i (logical g mat)"
    by (simp add: mat' spec_gj_step_def A_def[symmetric] spiv B_def)
qed

lemma spec_gj_step_length [simp]: "length (spec_gj_step i A) = length A"
  by (simp add: spec_gj_step_def spec_eliminate_def spec_swap_rows_def split: prod.splits)

lemma gj_fold_refines:
  fixes g :: "'a::{minus,times,inverse,abs,ord} heap"
  assumes ok: "rows_ok g mat" and sq: "cols mat = rows mat" and m: "m \<le> rows mat"
  shows "rows_ok (snd (fold gj_step [0..<m] (mat, g))) (fst (fold gj_step [0..<m] (mat, g))) \<and>
         rows (fst (fold gj_step [0..<m] (mat, g))) = rows mat \<and>
         cols (fst (fold gj_step [0..<m] (mat, g))) = cols mat \<and>
         brk (snd (fold gj_step [0..<m] (mat, g))) = brk g \<and>
         logical (snd (fold gj_step [0..<m] (mat, g))) (fst (fold gj_step [0..<m] (mat, g))) =
           fold spec_gj_step [0..<m] (logical g mat)"
  using m
proof (induction m)
  case 0
  show ?case using ok by simp
next
  case (Suc m)
  define st where "st = fold gj_step [0..<m] (mat, g)"
  have mr: "m < rows mat" using Suc.prems by simp
  have IH: "rows_ok (snd st) (fst st)" "rows (fst st) = rows mat" "cols (fst st) = cols mat"
    "brk (snd st) = brk g"
    "logical (snd st) (fst st) = fold spec_gj_step [0..<m] (logical g mat)"
    using Suc.IH mr unfolding st_def by simp_all
  have step: "fold gj_step [0..<Suc m] (mat, g) = gj_step m (fst st, snd st)"
    by (simp add: st_def)
  have sq': "cols (fst st) = rows (fst st)" using IH(2,3) sq by simp
  have m': "m < rows (fst st)" using mr IH(2) by simp
  note s = gj_step_refines[OF IH(1) sq' m']
  show ?case
    unfolding step using s IH(2,3,4,5) by simp
qed

lemma diag_product_spec:
  assumes "cols m = rows m"
  shows "diag_product h m = spec_diag_product (logical h m)"
  unfolding diag_product_def spec_diag_product_def logical_length
  by (rule fold_cong) (simp_all add: assms)

lemma determinant_value:
  fixes h :: "'a::{one,minus,times,inverse,abs,ord} heap"
  assumes ok: "rows_ok h M"
  shows "fst (determinant M h) =
           (if square M then Inr (spec_determinant (logical h M)) else Inl ShapeMismatch)"
proof (cases "square M")
  case False
  then show ?thesis by (simp add: determinant_def)
next
  case True
  then have sq: "cols M = rows M" by (simp add: square_def)
  define tmp where "tmp = fst (matrix_copy M h)"
  define h1 where "h1 = snd (matrix_copy M h)"
  define tmp' where "tmp' = fst (gauss_jordan_elimination tmp h1)"
  define h2 where "h2 = snd (gauss_jordan_elimination tmp h1)"
  have sh: "rows tmp = rows M" "cols tmp = cols M"
    by (simp_all add: tmp_def matrix_copy_facts)
  have ok1: "rows_ok h1 tmp"
    unfolding tmp_def h1_def using ok by (rule rows_ok_copy)
  have same: "logical h1 tmp = logical h M"
  proof (rule logical_eqI)
    show "rows tmp = length (logical h M)" by (simp add: sh)
    show "length (logical h M ! i) = cols tmp" if "i < rows tmp" for i
      using that by (simp add: sh)
    show "elem h1 tmp i j = logical h M ! i ! j" if "i < rows tmp" "j < cols tmp" for i j
    proof -
      have ij: "i < rows M" "j < cols M" using that by (simp_all add: sh)
      have "elem h1 tmp i j = elem h M i j"
        unfolding tmp_def h1_def using ok ij by (rule elem_copy(1))
      then show ?thesis using ij by simp
    qed
  qed
  have sq1: "cols tmp = rows tmp" using sq sh by simp
  have gj: "gauss_jordan_elimination tmp h1 = fold gj_step [0..<rows tmp] (tmp, h1)"
    by (simp add: gauss_jordan_elimination_def)
  note r = gj_fold_refines[OF ok1 sq1 le_refl, folded gj, folded tmp'_def h2_def]
  have sq2: "cols tmp' = rows tmp'" using r sq1 by simp
  have "logical h2 tmp' = spec_gauss_jordan (logical h M)"
    using r by (simp add: spec_gauss_jordan_def same[symmetric] sh)
  then have "diag_product h2 tmp' = spec_determinant (logical h M)"
    using diag_product_spec[OF sq2, of h2] by (simp add: spec_determinant_def)
  moreover have "determinant M h = (Inr (diag_product h2 tmp'), h2)"
    using True
    by (simp add: determinant_def tmp_def h1_def tmp'_def h2_def split: prod.splits)
  ultimately show ?thesis using True by simp
qed

text \<open>
  C1. For a matrix whose rows are in order: when it is square, \<open>determinant\<close>
  returns the product of the diagonal of the matrix that Gauss--Jordan elimination
  with partial pivoting, run on the values of the matrix, ends with; when it is not
  square, it fails with \<open>ShapeMismatch\<close> and returns no value.
\<close>

theorem determinant_refines:
  fixes h :: "'a::{one,minus,times,inverse,abs,ord} heap"
  assumes "rows_ok h M"
  shows "fst (determinant M h) =
           (if square M then Inr (spec_determinant (logical h M)) else Inl ShapeMismatch)"
  using assms by (rule determinant_value)

theorem determinant_refines_witness:
  "rows_ok (snd ex_a) (fst ex_a) \<and>
   fst (determinant (fst ex_a) (snd ex_a)) =
     (if square (fst ex_a) then Inr (spec_determinant (logical (snd ex_a) (fst ex_a)))
      else Inl ShapeMismatch) \<and>
   rows_ok (snd ex_c) (fst ex_c) \<and>
   fst (determinant (fst ex_c) (snd ex_c)) =
     (if square (fst ex_c) then Inr (spec_determinant (logical (snd ex_c) (fst ex_c)))
      else Inl ShapeMismatch)"
proof -
  have a: "rows_ok (snd ex_a) (fst ex_a)"
    unfolding ex_a_def by (rule rows_ok_matrix_from_list)
  have c: "rows_ok (snd ex_c) (fst ex_c)"
    unfolding ex_c_def by (rule rows_ok_matrix_from_list)
  show ?thesis
    using determinant_refines[OF a] determinant_refines[OF c] a c by blast
qed

text \<open>
  C2 fails on the code. The working copy \<open>tmp\<close> is made member by member: its buffer
  is new, but its row pointers are those of \<open>*this\<close>, so the elimination writes into
  the buffer of \<open>*this\<close>. On the matrix with rows \<open>(1, 1)\<close> and \<open>(0, 1)\<close> the call
  returns \<open>1\<close> and leaves the matrix with rows \<open>(1, 0)\<close> and \<open>(0, 1)\<close>.
\<close>

theorem determinant_overwrites_operand:
  "fst (determinant (fst ex_a) (snd ex_a)) = Inr (Fin 1) \<and>
   logical (snd ex_a) (fst ex_a) = [[Fin 1, Fin 1], [Fin 0, Fin 1]] \<and>
   logical (snd (determinant (fst ex_a) (snd ex_a))) (fst ex_a) =
     [[Fin 1, Fin 0], [Fin 0, Fin 1]]"
  by (simp add: ex_a_def logical_def run_defs det_defs)

text \<open>
  C3 fails on the code. The elimination exchanges rows without recording the sign,
  so the identity and the identity with its two rows exchanged both have
  determinant \<open>1\<close>.
\<close>

theorem determinant_row_swap_keeps_sign:
  "fst (determinant (fst ex_id) (snd ex_id)) = Inr (Fin 1) \<and>
   logical (snd ex_id) (swap_rows (fst ex_id) 0 1) = [[Fin 0, Fin 1], [Fin 1, Fin 0]] \<and>
   fst (determinant (swap_rows (fst ex_id) 0 1) (snd ex_id)) = Inr (Fin 1)"
  by (simp add: ex_id_def logical_def run_defs det_defs)

section \<open>Singular matrices\<close>

lemma spec_scan_bound:
  assumes "s \<le> k" "s < n"  "k \<le> n"
  shows "fold (\<lambda>row best. if P best row then row else best) [s..<k] s < (n::nat)"
  using assms(1,3)
proof (induction k rule: nat_induct_at_least)
  case base
  show ?case using assms(2) by simp
next
  case (Suc k)
  then show ?case by simp
qed

lemma spec_max_in_col_from_bound:
  assumes "i < length A"
  shows "fst (spec_max_in_col_from A c i) < length A"
  unfolding spec_max_in_col_from_def Let_def fst_conv
  using spec_scan_bound[of i "length A" "length A" "\<lambda>best row. \<bar>A ! best ! c\<bar> < \<bar>A ! row ! c\<bar>"] assms
  by simp

lemma spec_swap_rows_nth:
  assumes "a < length A" "b < length A" "r < length A"
  shows "spec_swap_rows A a b ! r = A ! (if r = a then b else if r = b then a else r)"
  using assms by (auto simp: spec_swap_rows_def nth_list_update)

lemma square_list_swap:
  assumes "square_list n A" "a < n" "b < n"
  shows "square_list n (spec_swap_rows A a b)"
  using assms unfolding square_list_def
  by (auto simp: spec_swap_rows_def nth_list_update)

lemma spec_eliminate_nth:
  assumes "r < length B"
  shows "spec_eliminate B i p ! r =
     (if r = i then B ! i
      else map (\<lambda>k. B ! r ! k - (B ! r ! i / p) * B ! i ! k) [0..<length (B ! r)])"
  using assms by (simp add: spec_eliminate_def)

lemma square_list_eliminate:
  assumes "square_list n B" "i < n"
  shows "square_list n (spec_eliminate B i p)"
  using assms unfolding square_list_def
  by (simp add: spec_eliminate_def)

lemma square_list_gj_step:
  assumes sq: "square_list n A" and i: "i < n"
  shows "square_list n (spec_gj_step i A)"
proof -
  obtain r p where rp: "spec_max_in_col_from A i i = (r, p)"
    by (cases "spec_max_in_col_from A i i")
  have "r < n"
    using spec_max_in_col_from_bound[of i A i] sq i rp by (simp add: square_list_def)
  then have "square_list n (spec_swap_rows A i r)"
    using sq i by (intro square_list_swap)
  then show ?thesis
    unfolding spec_gj_step_def rp prod.case using i by (rule square_list_eliminate)
qed

lemma square_list_gj_fold:
  assumes sq: "square_list n A" and m: "m \<le> n"
  shows "square_list n (fold spec_gj_step [j..<m] A)"
  using m
proof (induction m)
  case 0
  show ?case using sq by simp
next
  case (Suc m)
  show ?case
  proof (cases "j \<le> m")
    case True
    then show ?thesis using Suc by (simp add: square_list_gj_step)
  next
    case False
    then show ?thesis using sq by simp
  qed
qed

lemma eliminate_keeps_nonfinite_row:
  fixes fin :: "'a::{zero,minus,times,inverse} \<Rightarrow> bool"
  assumes na: "nonfinite_absorbing fin" and sq: "square_list n B" and i: "i < n"
    and nf: "nonfinite_row fin n B"
  shows "nonfinite_row fin n (spec_eliminate B i p)"
proof -
  obtain r where r: "r < n" and all: "\<And>k. k < n \<Longrightarrow> \<not> fin (B ! r ! k)"
    using nf unfolding nonfinite_row_def by blast
  have len: "length B = n" "length (B ! r) = n"
    using sq r by (simp_all add: square_list_def)
  have sub: "\<not> fin (x - y)" if "\<not> fin x" for x y
    using na that unfolding nonfinite_absorbing_def by blast
  have "\<not> fin (spec_eliminate B i p ! r ! k)" if "k < n" for k
    using that all[OF that] r len sub by (auto simp: spec_eliminate_nth)
  then show ?thesis
    unfolding nonfinite_row_def using r by blast
qed

lemma swap_keeps_nonfinite_row:
  assumes sq: "square_list n A" and a: "a < n" and b: "b < n" and nf: "nonfinite_row fin n A"
  shows "nonfinite_row fin n (spec_swap_rows A a b)"
proof -
  obtain r where r: "r < n" and all: "\<And>k. k < n \<Longrightarrow> \<not> fin (A ! r ! k)"
    using nf unfolding nonfinite_row_def by blast
  define r' where "r' = (if r = a then b else if r = b then a else r)"
  have len: "length A = n" using sq by (simp add: square_list_def)
  have r': "r' < n" using r a b by (simp add: r'_def)
  have "spec_swap_rows A a b ! r' = A ! r"
    using spec_swap_rows_nth[of a A b r'] a b r' len by (auto simp: r'_def)
  then have "\<forall>k<n. \<not> fin (spec_swap_rows A a b ! r' ! k)"
    using all by simp
  then show ?thesis
    unfolding nonfinite_row_def using r' by blast
qed

lemma gj_step_keeps_nonfinite_row:
  fixes fin :: "'a::{zero,minus,times,inverse,abs,ord} \<Rightarrow> bool"
  assumes na: "nonfinite_absorbing fin" and sq: "square_list n A" and i: "i < n"
    and nf: "nonfinite_row fin n A"
  shows "nonfinite_row fin n (spec_gj_step i A)"
proof -
  obtain r p where rp: "spec_max_in_col_from A i i = (r, p)"
    by (cases "spec_max_in_col_from A i i")
  have r: "r < n"
    using spec_max_in_col_from_bound[of i A i] sq i rp by (simp add: square_list_def)
  have "square_list n (spec_swap_rows A i r)"
    using sq i r by (rule square_list_swap)
  moreover have "nonfinite_row fin n (spec_swap_rows A i r)"
    using sq i r nf by (rule swap_keeps_nonfinite_row)
  ultimately show ?thesis
    unfolding spec_gj_step_def rp prod.case using na i
    by (intro eliminate_keeps_nonfinite_row)
qed

lemma gj_step_zero_pivot:
  fixes fin :: "'a::{zero,minus,times,inverse,abs,ord} \<Rightarrow> bool"
  assumes na: "nonfinite_absorbing fin" and sq: "square_list n A" and i: "i < n"
    and n2: "2 \<le> n" and z: "snd (spec_max_in_col_from A i i) = 0"
  shows "nonfinite_row fin n (spec_gj_step i A)"
proof -
  obtain r where rp: "spec_max_in_col_from A i i = (r, 0)"
    using z by (cases "spec_max_in_col_from A i i") simp
  have r: "r < n"
    using spec_max_in_col_from_bound[of i A i] sq i rp by (simp add: square_list_def)
  define B where "B = spec_swap_rows A i r"
  have sqB: "square_list n B"
    unfolding B_def using sq i r by (rule square_list_swap)
  obtain q where q: "q < n" "q \<noteq> i"
  proof (cases "i = 0")
    case True
    then show ?thesis using that[of 1] n2 by simp
  next
    case False
    then show ?thesis using that[of 0] n2 by simp
  qed
  have len: "length B = n" "length (B ! q) = n"
    using sqB q by (simp_all add: square_list_def)
  have d0: "\<not> fin (x / 0)" for x
    using na unfolding nonfinite_absorbing_def by blast
  have mul: "\<not> fin (x * y)" if "\<not> fin x" for x y
    using na that unfolding nonfinite_absorbing_def by blast
  have sub: "\<not> fin (x - y)" if "\<not> fin y" for x y
    using na that unfolding nonfinite_absorbing_def by blast
  have "\<not> fin (spec_eliminate B i 0 ! q ! k)" if "k < n" for k
  proof -
    have "\<not> fin (B ! q ! k - (B ! q ! i / 0) * B ! i ! k)"
      by (intro sub mul d0)
    then show ?thesis using that q len by (simp add: spec_eliminate_nth)
  qed
  then have "nonfinite_row fin n (spec_eliminate B i 0)"
    unfolding nonfinite_row_def using q(1) by blast
  then show ?thesis
    by (simp add: spec_gj_step_def rp B_def)
qed

lemma gj_fold_keeps_nonfinite_row:
  fixes fin :: "'a::{zero,minus,times,inverse,abs,ord} \<Rightarrow> bool"
  assumes na: "nonfinite_absorbing fin" and sq: "square_list n A"
    and nf: "nonfinite_row fin n A" and m: "m \<le> n"
  shows "nonfinite_row fin n (fold spec_gj_step [j..<m] A)"
  using m
proof (induction m)
  case 0
  show ?case using nf by simp
next
  case (Suc m)
  show ?case
  proof (cases "j \<le> m")
    case True
    have "square_list n (fold spec_gj_step [j..<m] A)"
      using sq Suc.prems by (intro square_list_gj_fold) simp_all
    moreover have "nonfinite_row fin n (fold spec_gj_step [j..<m] A)"
      using Suc by simp
    ultimately have "nonfinite_row fin n (spec_gj_step m (fold spec_gj_step [j..<m] A))"
      using na Suc.prems by (intro gj_step_keeps_nonfinite_row) simp_all
    then show ?thesis using True by simp
  next
    case False
    then show ?thesis using nf by simp
  qed
qed

lemma diag_fold_nonfinite:
  fixes fin :: "'a::{zero,minus,times,inverse} \<Rightarrow> bool"
  assumes na: "nonfinite_absorbing fin"
    and "\<not> fin acc \<or> (\<exists>r\<in>set xs. \<not> fin (d r))"
  shows "\<not> fin (fold (\<lambda>i res. res * d i) xs acc)"
  using assms(2)
proof (induction xs arbitrary: acc)
  case Nil
  then show ?case by simp
next
  case (Cons x xs)
  have mul: "\<not> fin (a * b)" if "\<not> fin a \<or> \<not> fin b" for a b
    using na that unfolding nonfinite_absorbing_def by blast
  have "\<not> fin (acc * d x) \<or> (\<exists>r\<in>set xs. \<not> fin (d r))"
    using Cons.prems mul[of acc "d x"] by auto
  then show ?case using Cons.IH[of "acc * d x"] by simp
qed

lemma spec_determinant_nonfinite:
  fixes fin :: "'a::{zero,one,minus,times,inverse,abs,ord} \<Rightarrow> bool"
  assumes na: "nonfinite_absorbing fin" and sq: "square_list n A"
    and n2: "2 \<le> n" and i: "i < n" and z: "spec_pivot_at A i = 0"
  shows "\<not> fin (spec_determinant A)"
proof -
  define Ai where "Ai = fold spec_gj_step [0..<i] A"
  have len: "length A = n" using sq by (simp add: square_list_def)
  have sqi: "square_list n Ai"
    unfolding Ai_def using sq i by (intro square_list_gj_fold) simp_all
  have zi: "snd (spec_max_in_col_from Ai i i) = 0"
    using z by (simp add: spec_pivot_at_def Ai_def)
  have nf1: "nonfinite_row fin n (spec_gj_step i Ai)"
    using na sqi i n2 zi by (rule gj_step_zero_pivot)
  have sq1: "square_list n (spec_gj_step i Ai)"
    using sqi i by (rule square_list_gj_step)
  have split: "[0..<n] = [0..<i] @ i # [Suc i..<n]"
    using i by (metis le0 upt_conv_Cons upt_add_eq_append le_add_diff_inverse less_imp_le_nat)
  have all: "spec_gauss_jordan A = fold spec_gj_step [Suc i..<n] (spec_gj_step i Ai)"
    by (simp add: spec_gauss_jordan_def len split Ai_def)
  have nf: "nonfinite_row fin n (spec_gauss_jordan A)"
    unfolding all using na sq1 nf1 by (intro gj_fold_keeps_nonfinite_row) simp_all
  have sqf: "square_list n (spec_gauss_jordan A)"
    unfolding all using sq1 by (intro square_list_gj_fold) simp_all
  obtain r where r: "r < n" "\<not> fin (spec_gauss_jordan A ! r ! r)"
    using nf unfolding nonfinite_row_def by blast
  have "\<not> fin (fold (\<lambda>i res. res * spec_gauss_jordan A ! i ! i) [0..<n] 1)"
    using na r by (intro diag_fold_nonfinite) auto
  then show ?thesis
    using sqf by (simp add: spec_determinant_def spec_diag_product_def square_list_def)
qed

lemma square_list_logical:
  assumes "square M"
  shows "square_list (rows M) (logical h M)"
  using assms by (simp add: square_list_def square_def)

lemma fp_nonfinite_absorbing: "nonfinite_absorbing is_finite"
proof -
  have d: "\<not> is_finite (x / 0)" for x :: fp
    by (cases x) (simp_all add: divide_fp_def zero_fp_def)
  have m: "\<not> is_finite (x * y)" if "\<not> is_finite x \<or> \<not> is_finite y" for x y :: fp
    using that by (cases x; cases y) (simp_all add: times_fp_def)
  have s: "\<not> is_finite (x - y)" if "\<not> is_finite x \<or> \<not> is_finite y" for x y :: fp
    using that by (cases x; cases y) (simp_all add: minus_fp_def)
  show ?thesis
    unfolding nonfinite_absorbing_def using d m s by blast
qed

text \<open>
  C4, as amended. Let the matrix be square with at least two rows, let the
  arithmetic of the element type keep values that are not finite (a quotient by
  zero is not finite; a product or difference with such an operand is not finite),
  and let some step of the elimination choose a pivot equal to zero. Then
  \<open>determinant\<close> returns a value that is not finite.
\<close>

theorem determinant_zero_pivot_nonfinite:
  fixes h :: "'a::{zero,one,minus,times,inverse,abs,ord} heap"
  assumes ok: "rows_ok h M" and sq: "square M" and n2: "2 \<le> rows M" and i: "i < rows M"
    and z: "spec_pivot_at (logical h M) i = 0" and na: "nonfinite_absorbing fin"
  shows "\<exists>v. fst (determinant M h) = Inr v \<and> \<not> fin v"
proof -
  have "\<not> fin (spec_determinant (logical h M))"
    using na square_list_logical[OF sq] n2 i z by (rule spec_determinant_nonfinite)
  moreover have "fst (determinant M h) = Inr (spec_determinant (logical h M))"
    using determinant_value[OF ok] sq by simp
  ultimately show ?thesis by blast
qed

theorem determinant_zero_pivot_nonfinite_witness:
  "rows_ok (snd ex_ones) (fst ex_ones) \<and> square (fst ex_ones) \<and> 2 \<le> rows (fst ex_ones) \<and>
   1 < rows (fst ex_ones) \<and> spec_pivot_at (logical (snd ex_ones) (fst ex_ones)) 1 = 0 \<and>
   nonfinite_absorbing is_finite \<and>
   (\<exists>v. fst (determinant (fst ex_ones) (snd ex_ones)) = Inr v \<and> \<not> is_finite v)"
proof -
  have ok: "rows_ok (snd ex_ones) (fst ex_ones)"
    unfolding ex_ones_def by (rule rows_ok_matrix_from_list)
  have sq: "square (fst ex_ones)" and n2: "2 \<le> rows (fst ex_ones)"
    and i: "1 < rows (fst ex_ones)"
    by (simp_all add: ex_ones_def square_def matrix_from_list_facts)
  have z: "spec_pivot_at (logical (snd ex_ones) (fst ex_ones)) 1 = 0"
    by (simp add: ex_ones_def run_defs spec_defs)
  show ?thesis
    using determinant_zero_pivot_nonfinite[OF ok sq n2 i z fp_nonfinite_absorbing]
      ok sq n2 i z fp_nonfinite_absorbing by blast
qed

text \<open>
  C4 as worded, for every singular matrix, fails: the \<open>1 \<times> 1\<close> matrix
  holding \<open>0\<close> is singular, no division takes place, and \<open>determinant\<close> returns
  \<open>1 * 0\<close>, the finite value \<open>0\<close>.
\<close>

theorem determinant_singular_finite_counterexample:
  "square (fst ex_zero) \<and> logical (snd ex_zero) (fst ex_zero) = [[Fin 0]] \<and>
   fst (determinant (fst ex_zero) (snd ex_zero)) = Inr (Fin 0) \<and> is_finite (Fin 0)"
  by (simp add: ex_zero_def logical_def run_defs det_defs)

end
